theory Spec2Isabelle
  imports Main "HOL-Library.Word"
begin

section \<open>JavaScript strings\<close>

text \<open>
  A JavaScript string is a sequence of UTF-16 code units, and the regular expressions of
  \<^verbatim>\<open>patchUtils.js\<close> (none has the \<^verbatim>\<open>u\<close> flag) work on code units. A code unit is a
  16-bit word; a literal of the source is written \<open>ustr ''...''\<close>.
\<close>

type_synonym cu = "16 word"
type_synonym ustring = "cu list"

definition ustr :: "string \<Rightarrow> ustring" where
  "ustr = map of_char"

definition LF :: cu where "LF = 0x0A"
definition CR :: cu where "CR = 0x0D"
definition SP :: cu where "SP = 0x20"
definition NBSP :: cu where "NBSP = 0xA0"

text \<open>\<^verbatim>\<open>s.replaceAll("\u00A0", " ")\<close>\<close>

definition replaceAll_nbsp :: "ustring \<Rightarrow> ustring" where
  "replaceAll_nbsp s = map (\<lambda>c. if c = NBSP then SP else c) s"

text \<open>\<^verbatim>\<open>s.endsWith(suffix)\<close>\<close>

definition endsWith :: "ustring \<Rightarrow> ustring \<Rightarrow> bool" where
  "endsWith s suf \<longleftrightarrow> length suf \<le> length s \<and> drop (length s - length suf) s = suf"

text \<open>
  \<^verbatim>\<open>bodyText.split(/\r\n|\n/)\<close>: the text is cut at every \<^verbatim>\<open>\r\n\<close> and at every other
  \<^verbatim>\<open>\n\<close>; a lone \<^verbatim>\<open>\r\<close> stays inside its line. The result always has at least one
  element (the empty text gives one empty line). \<open>acc\<close> is the line being collected.
\<close>

fun split_from :: "ustring \<Rightarrow> ustring \<Rightarrow> ustring list" where
  "split_from acc [] = [acc]"
| "split_from acc (c # cs) =
     (if c = LF then acc # split_from [] cs
      else if c = CR then
        (case cs of
           [] \<Rightarrow> split_from (acc @ [c]) cs
         | d # ds \<Rightarrow> if d = LF then acc # split_from [] ds else split_from (acc @ [c]) cs)
      else split_from (acc @ [c]) cs)"

definition js_split :: "ustring \<Rightarrow> ustring list" where
  "js_split bodyText = split_from [] bodyText"

text \<open>
  \<^verbatim>\<open>parseInt\<close> on a capture of \<^verbatim>\<open>\d+\<close>: the decimal value of the digits. JavaScript
  numbers are doubles, exact on integers up to \<open>2 ^ 53\<close>. The counters of
  \<^verbatim>\<open>convertToPatch\<close> are only decremented by one per line and compared with zero, and
  a string has fewer than \<open>2 ^ 53\<close> lines, so on every input mathematical integers
  give the same verdicts as the doubles do.
\<close>

definition digit_val :: "cu \<Rightarrow> int" where
  "digit_val c = uint c - 0x30"

definition parseInt :: "ustring \<Rightarrow> int" where
  "parseInt ds = foldl (\<lambda>n c. 10 * n + digit_val c) 0 ds"

section \<open>Regular expressions\<close>

text \<open>
  The fragment of ECMAScript regular expressions the source uses: literal code units,
  character classes, greedy \<^verbatim>\<open>*\<close> and \<^verbatim>\<open>+\<close> and lazy \<^verbatim>\<open>*?\<close> on a single class,
  sequence, alternation, a greedy optional group, capture groups, \<^verbatim>\<open>^\<close> and \<^verbatim>\<open>$\<close> (no \<^verbatim>\<open>m\<close> flag:
  start and end of the input). ECMAScript rejects an iteration of a quantified group that
  consumes nothing; every optional group of the source consumes at least one code unit
  when it matches, so \<open>Opt\<close> carries no such test.
\<close>

datatype rx =
    Chr cu
  | Cls "cu \<Rightarrow> bool"
  | Star "cu \<Rightarrow> bool"
  | Plus "cu \<Rightarrow> bool"
  | LazyStar "cu \<Rightarrow> bool"
  | Eps
  | Cat rx rx
  | Alt rx rx
  | Opt rx
  | Grp nat rx
  | Bol
  | Eol

text \<open>Character classes: \<^verbatim>\<open>\s\<close>, \<^verbatim>\<open>\S\<close>, \<^verbatim>\<open>\d\<close>, \<^verbatim>\<open>.\<close>, \<^verbatim>\<open>[a-zA-Z]\<close>, \<^verbatim>\<open>[.\s]\<close>.\<close>

definition is_space :: "cu \<Rightarrow> bool" where
  "is_space c \<longleftrightarrow>
     c = 0x09 \<or> c = 0x0A \<or> c = 0x0B \<or> c = 0x0C \<or> c = 0x0D \<or> c = 0x20 \<or> c = 0xA0 \<or>
     c = 0x1680 \<or> (0x2000 \<le> c \<and> c \<le> 0x200A) \<or> c = 0x2028 \<or> c = 0x2029 \<or>
     c = 0x202F \<or> c = 0x205F \<or> c = 0x3000 \<or> c = 0xFEFF"

definition is_nonspace :: "cu \<Rightarrow> bool" where
  "is_nonspace c \<longleftrightarrow> \<not> is_space c"

definition is_digit :: "cu \<Rightarrow> bool" where
  "is_digit c \<longleftrightarrow> 0x30 \<le> c \<and> c \<le> 0x39"

definition is_dot :: "cu \<Rightarrow> bool" where
  "is_dot c \<longleftrightarrow> \<not> (c = 0x0A \<or> c = 0x0D \<or> c = 0x2028 \<or> c = 0x2029)"

definition is_alpha :: "cu \<Rightarrow> bool" where
  "is_alpha c \<longleftrightarrow> (0x61 \<le> c \<and> c \<le> 0x7A) \<or> (0x41 \<le> c \<and> c \<le> 0x5A)"

definition is_period_or_space :: "cu \<Rightarrow> bool" where
  "is_period_or_space c \<longleftrightarrow> c = 0x2E \<or> is_space c"

text \<open>
  A configuration is the index reached in the input, the input left from there, and
  the captures made so far. \<open>rx_exec r c\<close> lists every way \<open>r\<close> can match from \<open>c\<close>,
  in the order in which the backtracking matcher tries them; the match JavaScript
  reports is the first that lets the whole expression succeed.
\<close>

type_synonym caps = "nat \<Rightarrow> ustring option"
type_synonym conf = "nat \<times> ustring \<times> caps"

fun star_greedy :: "(cu \<Rightarrow> bool) \<Rightarrow> conf \<Rightarrow> conf list" where
  "star_greedy p (i, [], g) = [(i, [], g)]"
| "star_greedy p (i, c # cs, g) =
     (if p c then star_greedy p (Suc i, cs, g) @ [(i, c # cs, g)] else [(i, c # cs, g)])"

fun star_lazy :: "(cu \<Rightarrow> bool) \<Rightarrow> conf \<Rightarrow> conf list" where
  "star_lazy p (i, [], g) = [(i, [], g)]"
| "star_lazy p (i, c # cs, g) =
     (i, c # cs, g) # (if p c then star_lazy p (Suc i, cs, g) else [])"

fun one_of :: "(cu \<Rightarrow> bool) \<Rightarrow> conf \<Rightarrow> conf list" where
  "one_of p (i, [], g) = []"
| "one_of p (i, c # cs, g) = (if p c then [(Suc i, cs, g)] else [])"

fun rx_exec :: "rx \<Rightarrow> conf \<Rightarrow> conf list" where
  "rx_exec (Chr x) c = one_of (\<lambda>y. y = x) c"
| "rx_exec (Cls p) c = one_of p c"
| "rx_exec (Star p) c = star_greedy p c"
| "rx_exec (Plus p) c = concat (map (star_greedy p) (one_of p c))"
| "rx_exec (LazyStar p) c = star_lazy p c"
| "rx_exec Eps c = [c]"
| "rx_exec (Cat a b) c = concat (map (rx_exec b) (rx_exec a c))"
| "rx_exec (Alt a b) c = rx_exec a c @ rx_exec b c"
| "rx_exec (Opt a) c = rx_exec a c @ [c]"
| "rx_exec (Grp n a) (i, s, g) =
     map (\<lambda>(j, s', g'). (j, s', g'(n \<mapsto> take (j - i) s))) (rx_exec a (i, s, g))"
| "rx_exec Bol (i, s, g) = (if i = 0 then [(i, s, g)] else [])"
| "rx_exec Eol (i, s, g) = (if s = [] then [(i, s, g)] else [])"

text \<open>
  \<^verbatim>\<open>s.match(r)\<close> for a regular expression without the \<^verbatim>\<open>g\<close> flag: the first start
  index from which \<open>r\<close> matches wins; the result is the captures of that match, or
  \<open>None\<close> for \<^verbatim>\<open>null\<close>.
\<close>

fun rx_from :: "rx \<Rightarrow> nat \<Rightarrow> ustring \<Rightarrow> caps option" where
  "rx_from r i [] =
     (case rx_exec r (i, [], Map.empty) of [] \<Rightarrow> None | (j, s', g) # _ \<Rightarrow> Some g)"
| "rx_from r i (c # cs) =
     (case rx_exec r (i, c # cs, Map.empty) of
        [] \<Rightarrow> rx_from r (Suc i) cs
      | (j, s', g) # _ \<Rightarrow> Some g)"

definition rx_match :: "rx \<Rightarrow> ustring \<Rightarrow> caps option" where
  "rx_match r s = rx_from r 0 s"

fun lit :: "string \<Rightarrow> rx" where
  "lit [] = Eps"
| "lit (x # xs) = Cat (Chr (of_char x)) (lit xs)"

text \<open>A literal under the \<^verbatim>\<open>i\<close> flag: an ASCII letter matches in either case.\<close>

definition ci :: "char \<Rightarrow> cu \<Rightarrow> bool" where
  "ci x c \<longleftrightarrow> c = of_char x \<or>
     (is_alpha (of_char x) \<and> is_alpha c \<and> (c = of_char x + 0x20 \<or> c + 0x20 = of_char x))"

fun lit_ci :: "string \<Rightarrow> rx" where
  "lit_ci [] = Eps"
| "lit_ci (x # xs) = Cat (Cls (ci x)) (lit_ci xs)"

fun seq :: "rx list \<Rightarrow> rx" where
  "seq [] = Eps"
| "seq (r # rs) = Cat r (seq rs)"

section \<open>The regular expressions of convertToPatch\<close>

text \<open>\<^verbatim>\<open>/^diff\s+--git\s+a(\/.*)\s+b(\/.*)$/\<close>\<close>

definition regexPatchFileHeader :: rx where
  "regexPatchFileHeader =
     seq [Bol, lit ''diff'', Plus is_space, lit ''--git'', Plus is_space, lit ''a'',
          Grp 1 (seq [lit ''/'', Star is_dot]), Plus is_space, lit ''b'',
          Grp 2 (seq [lit ''/'', Star is_dot]), Eol]"

text \<open>\<^verbatim>\<open>/^@@\s+-(?:\d+,)?(\d+)\s+\+(?:\d+,)?(\d+)\s+@@.*$/\<close>\<close>

definition regexPatchHunkAsciiHeader :: rx where
  "regexPatchHunkAsciiHeader =
     seq [Bol, lit ''@@'', Plus is_space, lit ''-'', Opt (seq [Plus is_digit, lit '','']),
          Grp 1 (Plus is_digit), Plus is_space, lit ''+'',
          Opt (seq [Plus is_digit, lit '','']), Grp 2 (Plus is_digit), Plus is_space,
          lit ''@@'', Star is_dot, Eol]"

text \<open>\<^verbatim>\<open>/^(delta|literal)\s+[0-9]+\s*$/\<close>\<close>

definition regexPatchHunkBinarySubHeader :: rx where
  "regexPatchHunkBinarySubHeader =
     seq [Bol, Grp 1 (Alt (lit ''delta'') (lit ''literal'')), Plus is_space, Plus is_digit,
          Star is_space, Eol]"

text \<open>\<^verbatim>\<open>/^[a-zA-Z]\S+$/\<close>\<close>

definition regexPatchHunkBinary :: rx where
  "regexPatchHunkBinary = seq [Bol, Cls is_alpha, Plus is_nonspace, Eol]"

section \<open>convertToPatch\<close>

datatype patch_state =
    PatchStateStart
  | PatchStateFileHeader
  | PatchStateHunkHeader
  | PatchStateHunk
  | PatchStateHunkEnd
  | PatchStateEnd

text \<open>
  The variables of \<^verbatim>\<open>convertToPatch\<close> that live across iterations. \<open>filePath\<close> is
  \<^verbatim>\<open>null\<close> (\<open>None\<close>) until the first file header.
\<close>

record pstate =
  patchBody :: ustring
  addedLines :: int
  deletedLines :: int
  ascii :: bool
  patchState :: patch_state
  success :: bool
  filePath :: "ustring option"

definition init :: pstate where
  "init = \<lparr>patchBody = [], addedLines = 0, deletedLines = 0, ascii = False,
            patchState = PatchStateStart, success = True, filePath = None\<rparr>"

text \<open>
  What can throw in the loop: \<^verbatim>\<open>.toString()\<close> on a capture that did not take part in
  the match (\<^verbatim>\<open>undefined\<close>) and \<^verbatim>\<open>.endsWith\<close> on a \<^verbatim>\<open>null\<close> file path.
\<close>

datatype js_error = TypeError

text \<open>
  The \<^verbatim>\<open>if\<close> / \<^verbatim>\<open>else if\<close> chain of the loop body: which branch a line takes in a parse
  state. A regular expression is only run when the state test before it holds
  (\<^verbatim>\<open>&&\<close> short-circuits), and the first branch whose condition holds wins.
\<close>

datatype branch =
    FileHeaderLine caps
  | AsciiHunkHeaderLine caps
  | BinaryHunkHeaderLine
  | BinarySubHeaderLine
  | HunkLine
  | SignatureLine
  | OtherLine

definition branch_of :: "patch_state \<Rightarrow> ustring \<Rightarrow> branch" where
  "branch_of st line =
     (case (if st = PatchStateStart \<or> st = PatchStateHunkEnd
            then rx_match regexPatchFileHeader line else None) of
        Some m \<Rightarrow> FileHeaderLine m
      | None \<Rightarrow>
        (case (if st = PatchStateFileHeader \<or> st = PatchStateHunkEnd
               then rx_match regexPatchHunkAsciiHeader line else None) of
           Some m \<Rightarrow> AsciiHunkHeaderLine m
         | None \<Rightarrow>
             if (st = PatchStateFileHeader \<or> st = PatchStateHunkEnd) \<and>
                line = ustr ''GIT binary patch''
             then BinaryHunkHeaderLine
             else if (st = PatchStateHunkHeader \<or> st = PatchStateHunkEnd) \<and>
                     rx_match regexPatchHunkBinarySubHeader line \<noteq> None
             then BinarySubHeaderLine
             else if st = PatchStateHunkHeader \<or> st = PatchStateHunk then HunkLine
             else if st = PatchStateHunkEnd \<and> line = ustr ''-- '' then SignatureLine
             else OtherLine))"

text \<open>
  The end of the loop body: an empty line in an ascii hunk (tested on the state the line
  has just led to) is skipped by \<^verbatim>\<open>continue\<close>; any other line is appended, its
  non-breaking spaces replaced, with the terminator \<open>unixEol\<close> selects.
\<close>

definition emit :: "pstate \<Rightarrow> ustring \<Rightarrow> bool \<Rightarrow> pstate" where
  "emit s line unixEol =
     (if (patchState s = PatchStateHunk \<or> patchState s = PatchStateHunkEnd) \<and>
         ascii s \<and> line = []
      then s
      else s\<lparr>patchBody := patchBody s @ replaceAll_nbsp line @
                              (if unixEol then [LF] else [CR, LF])\<rparr>)"

text \<open>\<^verbatim>\<open>line[0]\<close>: \<^verbatim>\<open>undefined\<close> (\<open>None\<close>) on the empty string.\<close>

definition charAt0 :: "ustring \<Rightarrow> cu option" where
  "charAt0 line = (case line of [] \<Rightarrow> None | c # _ \<Rightarrow> Some c)"

text \<open>
  The guard around the two counter updates of an ascii hunk line; \<open>0x5C\<close> is the
  backslash of \<^verbatim>\<open>"\\ No newline at end of file"\<close>.
\<close>

definition counted :: "ustring \<Rightarrow> bool" where
  "counted line \<longleftrightarrow> line \<noteq> 0x5C # ustr '' No newline at end of file'' \<and> line \<noteq> []"

definition addedLines_after :: "pstate \<Rightarrow> ustring \<Rightarrow> int" where
  "addedLines_after s line =
     (if counted line \<and> (charAt0 line = Some SP \<or> charAt0 line = Some (of_char CHR ''+''))
      then addedLines s - 1 else addedLines s)"

definition deletedLines_after :: "pstate \<Rightarrow> ustring \<Rightarrow> int" where
  "deletedLines_after s line =
     (if counted line \<and> (charAt0 line = Some SP \<or> charAt0 line = Some (of_char CHR ''-''))
      then deletedLines s - 1 else deletedLines s)"

text \<open>One iteration of the loop.\<close>

definition step :: "pstate \<Rightarrow> ustring \<Rightarrow> js_error + pstate" where
  "step s line =
     (case branch_of (patchState s) line of
        FileHeaderLine m \<Rightarrow>
          (case m 1 of
             None \<Rightarrow> Inl TypeError
           | Some p1 \<Rightarrow>
             (case m 2 of
                None \<Rightarrow> Inl TypeError
              | Some p2 \<Rightarrow>
                  Inr (emit (s\<lparr>patchState := PatchStateFileHeader,
                                success := success s \<and> p1 = p2,
                                filePath := Some p1\<rparr>) line True)))
      | AsciiHunkHeaderLine m \<Rightarrow>
          (case m 1 of
             None \<Rightarrow> Inl TypeError
           | Some d \<Rightarrow>
             (case m 2 of
                None \<Rightarrow> Inl TypeError
              | Some a \<Rightarrow>
                  Inr (emit (s\<lparr>patchState := PatchStateHunkHeader, ascii := True,
                                deletedLines := parseInt d,
                                addedLines := parseInt a\<rparr>) line True)))
      | BinaryHunkHeaderLine \<Rightarrow>
          Inr (emit (s\<lparr>patchState := PatchStateHunkHeader, ascii := False\<rparr>) line True)
      | BinarySubHeaderLine \<Rightarrow>
          Inr (emit (s\<lparr>success := success s \<and> \<not> ascii s,
                        patchState := PatchStateHunkHeader\<rparr>) line True)
      | HunkLine \<Rightarrow>
          if ascii s then
            (case filePath s of
               None \<Rightarrow> Inl TypeError
             | Some fp \<Rightarrow>
                 let a = addedLines_after s line; d = deletedLines_after s line
                 in Inr (emit (s\<lparr>addedLines := a, deletedLines := d,
                                  patchState := (if a = 0 \<and> d = 0 then PatchStateHunkEnd
                                                 else PatchStateHunk),
                                  success := success s \<and> 0 \<le> a \<and> 0 \<le> d\<rparr>)
                          line (endsWith fp (ustr ''.sh''))))
          else
            Inr (emit (s\<lparr>patchState :=
                            (if rx_match regexPatchHunkBinary line = None
                             then PatchStateHunkEnd else PatchStateHunk)\<rparr>) line True)
      | SignatureLine \<Rightarrow> Inr (emit (s\<lparr>patchState := PatchStateEnd\<rparr>) line True)
      | OtherLine \<Rightarrow> Inr (emit s line True))"

text \<open>The loop over the lines; an exception ends it.\<close>

fun run :: "pstate \<Rightarrow> ustring list \<Rightarrow> js_error + pstate" where
  "run s [] = Inr s"
| "run s (line # lines) =
     (case step s line of Inl e \<Rightarrow> Inl e | Inr s' \<Rightarrow> run s' lines)"

text \<open>What is returned once the loop is over.\<close>

definition finish :: "js_error + pstate \<Rightarrow> js_error + bool \<times> ustring" where
  "finish r =
     (case r of
        Inl e \<Rightarrow> Inl e
      | Inr s \<Rightarrow> Inr (if patchState s \<noteq> PatchStateEnd then False else success s, patchBody s))"

text \<open>\<^verbatim>\<open>convertToPatch\<close> of \<^verbatim>\<open>src/commands/patchUtils.js\<close>.\<close>

definition convertToPatch :: "ustring \<Rightarrow> js_error + bool \<times> ustring" where
  "convertToPatch bodyText = finish (run init (js_split bodyText))"

text \<open>
  \<^verbatim>\<open>convertToPatch\<close> of the second copy of the file: the same loop (its variables are
  renamed), over \<^verbatim>\<open>bodyText.replaceAll("\u00A0", " ").split(/\r\n|\n/)\<close>.
\<close>

definition convertToPatch_part000 :: "ustring \<Rightarrow> js_error + bool \<times> ustring" where
  "convertToPatch_part000 bodyText = finish (run init (js_split (replaceAll_nbsp bodyText)))"

section \<open>getPatchFileName\<close>

text \<open>
  \<^verbatim>\<open>/(?:\[edk2-devel\]\s*)?\[PATCH\s*(?:V\d+\s+)?(?:(\d+)\/\d+)?\]\s*(.*?)[.\s]*$/i\<close>.
  It has no \<^verbatim>\<open>^\<close>: the match may start anywhere in the subject.
\<close>

definition regexSubject :: rx where
  "regexSubject =
     seq [Opt (seq [lit_ci ''[edk2-devel]'', Star is_space]), lit_ci ''[PATCH'', Star is_space,
          Opt (seq [lit_ci ''V'', Plus is_digit, Plus is_space]),
          Opt (seq [Grp 1 (Plus is_digit), lit_ci ''/'', Plus is_digit]),
          lit_ci '']'', Star is_space, Grp 2 (LazyStar is_dot), Star is_period_or_space, Eol]"

text \<open>Decimal digits of a natural number.\<close>

fun decimal :: "nat \<Rightarrow> ustring" where
  "decimal n = (if n < 10 then [0x30 + of_nat n] else decimal (n div 10) @ [0x30 + of_nat (n mod 10)])"

declare decimal.simps [simp del]

text \<open>
  \<^verbatim>\<open>patchIndex.toString()\<close>. The index is a double: up to \<open>2 ^ 53\<close> it is the integer
  that was read and prints as its digits. What a larger one rounds to and prints as is
  not modelled: it is the parameter \<open>big\<close>.
\<close>

definition number_toString :: "(int \<Rightarrow> ustring) \<Rightarrow> int \<Rightarrow> ustring" where
  "number_toString big n = (if 0 \<le> n \<and> n \<le> 2 ^ 53 then decimal (nat n) else big n)"

text \<open>\<^verbatim>\<open>.padStart(4, "0")\<close>\<close>

definition padStart4 :: "ustring \<Rightarrow> ustring" where
  "padStart4 s = replicate (4 - length s) (of_char CHR ''0'') @ s"

text \<open>\<^verbatim>\<open>.replace(/[^\x00-\x7F]/g, " ")\<close>\<close>

definition nonascii_to_space :: "ustring \<Rightarrow> ustring" where
  "nonascii_to_space s = map (\<lambda>c. if 0x7F < c then SP else c) s"

text \<open>
  The second \<^verbatim>\<open>.replace\<close>, of the class of the ten special characters (backslash
  \<open>0x5C\<close>, double quote \<open>0x22\<close>, and \<^verbatim>\<open>/ * | < > : # ?\<close>), each replaced by a
  space.
\<close>

definition is_special :: "cu \<Rightarrow> bool" where
  "is_special c \<longleftrightarrow> c = 0x5C \<or> c = 0x22 \<or> c \<in> set (ustr ''/*|<>:#?'')"

definition special_to_space :: "ustring \<Rightarrow> ustring" where
  "special_to_space s = map (\<lambda>c. if is_special c then SP else c) s"

text \<open>\<^verbatim>\<open>.replace(/ +/g, "-")\<close>: every run of spaces becomes one hyphen.\<close>

function spaces_to_hyphen :: "ustring \<Rightarrow> ustring" where
  "spaces_to_hyphen [] = []"
| "spaces_to_hyphen (c # cs) =
     (if c = SP then of_char CHR ''-'' # spaces_to_hyphen (dropWhile (\<lambda>x. x = SP) cs)
      else c # spaces_to_hyphen cs)"
  by pat_completeness auto
termination
  by (relation "measure length") (auto simp: le_imp_less_Suc length_dropWhile_le)

text \<open>
  \<open>mailSubject\<close> after the \<^verbatim>\<open>if (match)\<close>: the subject itself when it does not match,
  the padded index, a hyphen and the title otherwise. \<^verbatim>\<open>parseInt(match[1]) || 1\<close> is 1
  when the index is missing (\<^verbatim>\<open>NaN\<close>) or zero.
\<close>

definition titled :: "(int \<Rightarrow> ustring) \<Rightarrow> ustring \<Rightarrow> ustring" where
  "titled big subject =
     (case rx_match regexSubject subject of
        None \<Rightarrow> subject
      | Some m \<Rightarrow>
          let patchIndex =
                (case m 1 of
                   None \<Rightarrow> 1
                 | Some ds \<Rightarrow> if parseInt ds = 0 then 1 else parseInt ds)
          in padStart4 (number_toString big patchIndex) @ ustr ''-'' @
             (case m 2 of None \<Rightarrow> ustr ''undefined'' | Some title \<Rightarrow> title))"

text \<open>\<open>mailSubject\<close> after the three replacements.\<close>

definition sanitized :: "(int \<Rightarrow> ustring) \<Rightarrow> ustring \<Rightarrow> ustring" where
  "sanitized big subject =
     spaces_to_hyphen (special_to_space (nonascii_to_space (titled big subject)))"

definition getPatchFileName :: "(int \<Rightarrow> ustring) \<Rightarrow> ustring \<Rightarrow> bool \<Rightarrow> ustring" where
  "getPatchFileName big subject ok =
     (let mailSubject = sanitized big subject;
          mailSubject = (if \<not> ok then mailSubject @ ustr ''.warning'' else mailSubject)
      in mailSubject @ ustr ''.patch'')"

section \<open>Auxiliary notions for the properties\<close>

text \<open>The capture groups that take part in every match of a regular expression.\<close>

fun sets :: "rx \<Rightarrow> nat set" where
  "sets (Grp n a) = insert n (sets a)"
| "sets (Cat a b) = sets a \<union> sets b"
| "sets (Alt a b) = sets a \<inter> sets b"
| "sets _ = {}"

text \<open>
  Once the loop has left the start state, a file header has been seen and \<open>filePath\<close>
  is a string.
\<close>

definition path_known :: "pstate \<Rightarrow> bool" where
  "path_known s \<longleftrightarrow> patchState s = PatchStateStart \<or> filePath s \<noteq> None"

text \<open>
  The three places where the loop body updates \<open>success\<close>: \<open>violation s line\<close> holds
  when the conjunct it adds there is false (the two paths of a file header differ, a
  binary sub-header comes in an ascii hunk, a counter of an ascii hunk falls below zero).
\<close>

definition violation :: "pstate \<Rightarrow> ustring \<Rightarrow> bool" where
  "violation s line =
     (case branch_of (patchState s) line of
        FileHeaderLine m \<Rightarrow> m 1 \<noteq> m 2
      | BinarySubHeaderLine \<Rightarrow> ascii s
      | HunkLine \<Rightarrow> ascii s \<and> (addedLines_after s line < 0 \<or> deletedLines_after s line < 0)
      | _ \<Rightarrow> False)"

text \<open>Some line of the scan from \<open>s\<close> records a violation.\<close>

fun violated :: "pstate \<Rightarrow> ustring list \<Rightarrow> bool" where
  "violated s [] = False"
| "violated s (line # lines) =
     (violation s line \<or> (case step s line of Inl e \<Rightarrow> False | Inr s' \<Rightarrow> violated s' lines))"

text \<open>
  The content lines of an ascii hunk: a context line starts with a space, an added line
  with \<^verbatim>\<open>+\<close>, a deleted line with \<^verbatim>\<open>-\<close>. A context line counts as deleted and as
  added.
\<close>

definition counts_deleted :: "ustring \<Rightarrow> bool" where
  "counts_deleted line \<longleftrightarrow> charAt0 line = Some SP \<or> charAt0 line = Some (of_char CHR ''-'')"

definition counts_added :: "ustring \<Rightarrow> bool" where
  "counts_added line \<longleftrightarrow> charAt0 line = Some SP \<or> charAt0 line = Some (of_char CHR ''+'')"

definition is_content :: "ustring \<Rightarrow> bool" where
  "is_content line \<longleftrightarrow> counts_deleted line \<or> counts_added line"

definition del_count :: "ustring list \<Rightarrow> nat" where
  "del_count lines = length (filter counts_deleted lines)"

definition add_count :: "ustring list \<Rightarrow> nat" where
  "add_count lines = length (filter counts_added lines)"

text \<open>
  How a scan shows in its output: \<open>eols\<close> gives, line by line, the terminator the line
  was appended with, or \<open>None\<close> for a line that was skipped. \<open>emitted_as lines eols text\<close>
  says that \<open>text\<close> is, in order, each appended line with every non-breaking space
  turned into a space and followed by its terminator, that the terminators are LF or
  CRLF, and that only empty lines are skipped.
\<close>

definition emitted_as :: "ustring list \<Rightarrow> ustring option list \<Rightarrow> ustring \<Rightarrow> bool" where
  "emitted_as lines eols text \<longleftrightarrow>
     length eols = length lines \<and>
     text = concat (map (\<lambda>(line, e). case e of
                                        None \<Rightarrow> []
                                      | Some eol \<Rightarrow> map (\<lambda>c. if c = NBSP then SP else c) line @ eol)
                     (zip lines eols)) \<and>
     (\<forall>(line, e)\<in>set (zip lines eols).
        (e = None \<longrightarrow> line = []) \<and> (e = None \<or> e = Some [LF] \<or> e = Some [CR, LF]))"

text \<open>
  A regular expression that cannot tell a non-breaking space from a space: no literal of
  it is one of the two, and each of its classes holds both or neither.
\<close>

fun inert :: "rx \<Rightarrow> bool" where
  "inert (Chr x) \<longleftrightarrow> x \<noteq> SP \<and> x \<noteq> NBSP"
| "inert (Cls p) \<longleftrightarrow> p NBSP = p SP"
| "inert (Star p) \<longleftrightarrow> p NBSP = p SP"
| "inert (Plus p) \<longleftrightarrow> p NBSP = p SP"
| "inert (LazyStar p) \<longleftrightarrow> p NBSP = p SP"
| "inert Eps \<longleftrightarrow> True"
| "inert (Cat a b) \<longleftrightarrow> inert a \<and> inert b"
| "inert (Alt a b) \<longleftrightarrow> inert a \<and> inert b"
| "inert (Opt a) \<longleftrightarrow> inert a"
| "inert (Grp n a) \<longleftrightarrow> inert a"
| "inert Bol \<longleftrightarrow> True"
| "inert Eol \<longleftrightarrow> True"

text \<open>The replacement applied to the captures and to a configuration of the matcher.\<close>

definition replaced_caps :: "caps \<Rightarrow> caps" where
  "replaced_caps g = (\<lambda>n. map_option replaceAll_nbsp (g n))"

definition replaced_conf :: "conf \<Rightarrow> conf" where
  "replaced_conf = (\<lambda>(j, s, g). (j, replaceAll_nbsp s, replaced_caps g))"

text \<open>
  A line on which replacing the non-breaking spaces changes none of the tests of the
  loop body: either it holds none, or it does not start with one, it is no file header
  and no ascii hunk header, and the replacement does not make it one of the three
  literals the loop compares a line with.
\<close>

definition nbsp_inert :: "ustring \<Rightarrow> bool" where
  "nbsp_inert line \<longleftrightarrow>
     NBSP \<notin> set line \<or>
     (charAt0 line \<noteq> Some NBSP \<and>
      rx_match regexPatchFileHeader line = None \<and>
      rx_match regexPatchHunkAsciiHeader line = None \<and>
      replaceAll_nbsp line \<noteq> ustr ''GIT binary patch'' \<and>
      replaceAll_nbsp line \<noteq> ustr ''-- '' \<and>
      replaceAll_nbsp line \<noteq> 0x5C # ustr '' No newline at end of file'')"

section \<open>Captures of a match\<close>

lemma star_greedy_caps: "(j, s', g') \<in> set (star_greedy p (i, s, g)) \<Longrightarrow> g' = g"
  by (induction s arbitrary: i) (auto split: if_splits)

lemma star_lazy_caps: "(j, s', g') \<in> set (star_lazy p (i, s, g)) \<Longrightarrow> g' = g"
  by (induction s arbitrary: i) (auto split: if_splits)

lemma one_of_caps: "(j, s', g') \<in> set (one_of p (i, s, g)) \<Longrightarrow> g' = g"
  by (cases s) (auto split: if_splits)

lemma rx_exec_caps_mono:
  "(j, s', g') \<in> set (rx_exec r (i, s, g)) \<Longrightarrow> g n \<noteq> None \<Longrightarrow> g' n \<noteq> None"
proof (induction r arbitrary: i s g j s' g')
  case (Plus p)
  then show ?case by (auto dest!: one_of_caps star_greedy_caps)
next
  case (Cat a b)
  then show ?case by fastforce
next
  case (Grp m a)
  then show ?case by (fastforce split: if_splits)
qed (auto dest: one_of_caps star_greedy_caps star_lazy_caps split: if_splits)

lemma rx_exec_sets:
  "(j, s', g') \<in> set (rx_exec r (i, s, g)) \<Longrightarrow> n \<in> sets r \<Longrightarrow> g' n \<noteq> None"
proof (induction r arbitrary: i s g j s' g')
  case (Cat a b)
  then show ?case by (fastforce dest: rx_exec_caps_mono)
next
  case (Grp m a)
  then show ?case by (fastforce split: if_splits)
qed auto

lemma rx_from_in:
  "rx_from r i s = Some g \<Longrightarrow> \<exists>k t j s'. (j, s', g) \<in> set (rx_exec r (k, t, Map.empty))"
proof (induction s arbitrary: i)
  case Nil
  then obtain j s' rest where "rx_exec r (i, [], Map.empty) = (j, s', g) # rest"
    by (auto split: list.splits)
  then have "(j, s', g) \<in> set (rx_exec r (i, [], Map.empty))" by simp
  then show ?case by blast
next
  case (Cons c cs)
  show ?case
  proof (cases "rx_exec r (i, c # cs, Map.empty)")
    case Nil
    with Cons show ?thesis by simp
  next
    case (Cons x rest)
    with Cons.prems obtain j s' where "x = (j, s', g)"
      by (cases x) auto
    with Cons have "(j, s', g) \<in> set (rx_exec r (i, c # cs, Map.empty))" by simp
    then show ?thesis by blast
  qed
qed

lemma rx_from_sets: "rx_from r i s = Some g \<Longrightarrow> n \<in> sets r \<Longrightarrow> g n \<noteq> None"
  using rx_from_in rx_exec_sets by blast

lemma rx_match_sets: "rx_match r s = Some g \<Longrightarrow> n \<in> sets r \<Longrightarrow> \<exists>v. g n = Some v"
  using rx_from_sets [of r 0 s g n] by (auto simp: rx_match_def)

lemma sets_FileHeader: "1 \<in> sets regexPatchFileHeader" "2 \<in> sets regexPatchFileHeader"
  by (simp_all add: regexPatchFileHeader_def)

lemma sets_AsciiHeader: "1 \<in> sets regexPatchHunkAsciiHeader" "2 \<in> sets regexPatchHunkAsciiHeader"
  by (simp_all add: regexPatchHunkAsciiHeader_def)

section \<open>Branches and single steps\<close>

lemma emit_fields [simp]:
  "patchState (emit s line u) = patchState s"
  "ascii (emit s line u) = ascii s"
  "success (emit s line u) = success s"
  "filePath (emit s line u) = filePath s"
  "addedLines (emit s line u) = addedLines s"
  "deletedLines (emit s line u) = deletedLines s"
  by (simp_all add: emit_def)

lemma branch_of_FileHeaderLine:
  "branch_of st line = FileHeaderLine m \<Longrightarrow>
     (st = PatchStateStart \<or> st = PatchStateHunkEnd) \<and> rx_match regexPatchFileHeader line = Some m"
  by (simp add: branch_of_def split: option.splits if_splits)

lemma branch_of_AsciiHunkHeaderLine:
  "branch_of st line = AsciiHunkHeaderLine m \<Longrightarrow>
     (st = PatchStateFileHeader \<or> st = PatchStateHunkEnd) \<and>
     rx_match regexPatchHunkAsciiHeader line = Some m"
  by (simp add: branch_of_def split: option.splits if_splits)

lemma branch_of_HunkLine:
  "branch_of st line = HunkLine \<Longrightarrow> st = PatchStateHunkHeader \<or> st = PatchStateHunk"
  by (simp add: branch_of_def split: option.splits if_splits)

lemma branch_of_BinaryHunkHeaderLine:
  "branch_of st line = BinaryHunkHeaderLine \<Longrightarrow> st = PatchStateFileHeader \<or> st = PatchStateHunkEnd"
  by (simp add: branch_of_def split: option.splits if_splits)

lemma branch_of_BinarySubHeaderLine:
  "branch_of st line = BinarySubHeaderLine \<Longrightarrow> st = PatchStateHunkHeader \<or> st = PatchStateHunkEnd"
  by (simp add: branch_of_def split: option.splits if_splits)

lemma branch_of_SignatureLine:
  "branch_of st line = SignatureLine \<Longrightarrow> st = PatchStateHunkEnd \<and> line = ustr ''-- ''"
  by (simp add: branch_of_def split: option.splits if_splits)

lemma step_total:
  assumes "path_known s"
  shows "\<exists>s'. step s line = Inr s' \<and> path_known s'"
proof (cases "branch_of (patchState s) line")
  case (FileHeaderLine m)
  then have "rx_match regexPatchFileHeader line = Some m"
    by (simp add: branch_of_FileHeaderLine)
  then obtain p1 p2 where "m 1 = Some p1" "m 2 = Some p2"
    using rx_match_sets sets_FileHeader by blast
  with FileHeaderLine show ?thesis
    by (simp add: step_def path_known_def)
next
  case (AsciiHunkHeaderLine m)
  then have "rx_match regexPatchHunkAsciiHeader line = Some m"
    by (simp add: branch_of_AsciiHunkHeaderLine)
  then obtain d a where "m 1 = Some d" "m 2 = Some a"
    using rx_match_sets sets_AsciiHeader by blast
  with AsciiHunkHeaderLine assms branch_of_AsciiHunkHeaderLine [OF AsciiHunkHeaderLine]
  show ?thesis
    by (auto simp add: step_def path_known_def)
next
  case BinaryHunkHeaderLine
  with assms branch_of_BinaryHunkHeaderLine [OF BinaryHunkHeaderLine] show ?thesis
    by (auto simp add: step_def path_known_def)
next
  case BinarySubHeaderLine
  with assms branch_of_BinarySubHeaderLine [OF BinarySubHeaderLine] show ?thesis
    by (auto simp add: step_def path_known_def)
next
  case HunkLine
  with assms branch_of_HunkLine [OF HunkLine] obtain fp where "filePath s = Some fp"
    by (auto simp: path_known_def)
  with HunkLine show ?thesis
    by (simp add: step_def path_known_def Let_def)
next
  case SignatureLine
  with assms branch_of_SignatureLine [OF SignatureLine] show ?thesis
    by (auto simp add: step_def path_known_def)
next
  case OtherLine
  with assms show ?thesis
    by (auto simp add: step_def path_known_def)
qed

lemma run_total: "path_known s \<Longrightarrow> \<exists>s'. run s lines = Inr s' \<and> path_known s'"
proof (induction lines arbitrary: s)
  case Nil
  then show ?case by simp
next
  case (Cons line lines)
  from step_total [OF Cons.prems] obtain s1 where "step s line = Inr s1" "path_known s1"
    by blast
  with Cons.IH [of s1] show ?case by simp
qed

lemma path_known_init: "path_known init"
  by (simp add: path_known_def init_def)

lemma run_append:
  "run s (xs @ ys) = (case run s xs of Inl e \<Rightarrow> Inl e | Inr s' \<Rightarrow> run s' ys)"
  by (induction xs arbitrary: s) (auto split: sum.splits)

lemma step_emit:
  "step s line = Inr s' \<Longrightarrow> \<exists>t u. s' = emit t line u \<and> patchBody t = patchBody s"
proof (cases "branch_of (patchState s) line")
  case (FileHeaderLine m)
  assume "step s line = Inr s'"
  with FileHeaderLine show ?thesis
    by (cases "m 1"; cases "m 2") (force simp: step_def)+
next
  case (AsciiHunkHeaderLine m)
  assume "step s line = Inr s'"
  with AsciiHunkHeaderLine show ?thesis
    by (cases "m 1"; cases "m 2") (force simp: step_def)+
next
  case BinaryHunkHeaderLine
  assume "step s line = Inr s'"
  with BinaryHunkHeaderLine show ?thesis
    by (force simp: step_def)
next
  case BinarySubHeaderLine
  assume "step s line = Inr s'"
  with BinarySubHeaderLine show ?thesis
    by (force simp: step_def)
next
  case HunkLine
  assume "step s line = Inr s'"
  with HunkLine show ?thesis
    by (cases "ascii s"; cases "filePath s") (force simp: step_def Let_def)+
next
  case SignatureLine
  assume "step s line = Inr s'"
  with SignatureLine show ?thesis
    by (force simp: step_def)
next
  case OtherLine
  assume "step s line = Inr s'"
  with OtherLine show ?thesis
    by (force simp: step_def)
qed

lemma step_patchBody:
  assumes "step s line = Inr s'"
  shows "patchBody s' = patchBody s \<or>
     (\<exists>u. patchBody s' = patchBody s @ replaceAll_nbsp line @ (if u then [LF] else [CR, LF]))"
proof -
  from step_emit [OF assms] obtain t u where t: "s' = emit t line u" "patchBody t = patchBody s"
    by blast
  show ?thesis
  proof (cases "(patchState t = PatchStateHunk \<or> patchState t = PatchStateHunkEnd) \<and>
         ascii t \<and> line = []")
    case True
    with t show ?thesis by (simp add: emit_def)
  next
    case False
    with t have "patchBody s' = patchBody s @ replaceAll_nbsp line @ (if u then [LF] else [CR, LF])"
      by (simp add: emit_def)
    then show ?thesis by blast
  qed
qed

lemma NBSP_replaceAll: "NBSP \<notin> set (replaceAll_nbsp line)"
  by (auto simp: replaceAll_nbsp_def NBSP_def SP_def)

lemma step_no_nbsp:
  assumes "step s line = Inr s'" "NBSP \<notin> set (patchBody s)"
  shows "NBSP \<notin> set (patchBody s')"
proof -
  have eol: "NBSP \<notin> set (if u then [LF] else [CR, LF])" for u
    by (simp add: NBSP_def LF_def CR_def)
  from step_patchBody [OF assms(1)] show ?thesis
  proof
    assume "patchBody s' = patchBody s"
    with assms(2) show ?thesis by simp
  next
    assume "\<exists>u. patchBody s' = patchBody s @ replaceAll_nbsp line @ (if u then [LF] else [CR, LF])"
    then obtain u where "patchBody s' = patchBody s @ replaceAll_nbsp line @ (if u then [LF] else [CR, LF])"
      by blast
    with assms(2) NBSP_replaceAll [of line] eol [of u] show ?thesis
      by (simp del: set_append add: set_append [of "patchBody s"] set_append [of "replaceAll_nbsp line"])
  qed
qed

lemma run_no_nbsp:
  "run s lines = Inr s' \<Longrightarrow> NBSP \<notin> set (patchBody s) \<Longrightarrow> NBSP \<notin> set (patchBody s')"
proof (induction lines arbitrary: s)
  case Nil
  then show ?case by simp
next
  case (Cons line lines)
  then show ?case
    by (auto split: sum.splits dest: step_no_nbsp)
qed

subsection \<open>Evaluated examples\<close>

lemma example_sh_split:
  "js_split (ustr ''diff --git a/f.sh b/f.sh'' @ [LF] @ ustr ''@@ -1 +1 @@'' @ [LF] @ ustr '' a'') =
   [ustr ''diff --git a/f.sh b/f.sh'', ustr ''@@ -1 +1 @@''] @ ustr '' a'' # []"
  by code_simp

lemma example_sh_run:
  "run init [ustr ''diff --git a/f.sh b/f.sh'', ustr ''@@ -1 +1 @@''] =
   Inr \<lparr>patchBody = ustr ''diff --git a/f.sh b/f.sh'' @ [LF] @ ustr ''@@ -1 +1 @@'' @ [LF],
        addedLines = 1, deletedLines = 1, ascii = True, patchState = PatchStateHunkHeader,
        success = True, filePath = Some (ustr ''/f.sh'')\<rparr>"
  by code_simp

lemma example_sh_branch: "branch_of PatchStateHunkHeader (ustr '' a'') = HunkLine"
proof -
  have "case branch_of PatchStateHunkHeader (ustr '' a'') of HunkLine \<Rightarrow> True | _ \<Rightarrow> False"
    by code_simp
  then show ?thesis by (simp split: branch.splits)
qed

lemma example_sh_counted: "counted (ustr '' a'')"
  by code_simp

lemma example_nbsp:
  "convertToPatch (ustr ''a'' @ [NBSP] @ ustr ''b'') = Inr (False, ustr ''a b'' @ [LF])"
  by code_simp

lemma example_subject:
  "\<not> endsWith (sanitized (\<lambda>n. []) (ustr ''[edk2-devel] [PATCH V2 2/5] Add FooLib support.''))
       (ustr ''.warning'')"
  by code_simp

lemma signature_branch: "branch_of PatchStateHunkEnd (ustr ''-- '') = SignatureLine"
proof -
  have "case branch_of PatchStateHunkEnd (ustr ''-- '') of SignatureLine \<Rightarrow> True | _ \<Rightarrow> False"
    by code_simp
  then show ?thesis by (simp split: branch.splits)
qed

lemma example_patch:
  "convertToPatch (ustr ''diff --git a/f b/f'' @ [LF] @ ustr ''@@ -1 +1 @@'' @ [LF] @
      ustr '' a'' @ [LF] @ ustr ''-- '') =
   Inr (True, ustr ''diff --git a/f b/f'' @ [LF] @ ustr ''@@ -1 +1 @@'' @ [LF] @
      ustr '' a'' @ [CR, LF] @ ustr ''-- '' @ [LF])"
  by code_simp

lemma example_mismatch:
  "case rx_match regexPatchFileHeader (ustr ''diff --git a/x b/y'') of
     None \<Rightarrow> False
   | Some m \<Rightarrow> m 1 = Some (ustr ''/x'') \<and> m 2 = Some (ustr ''/y'')"
  by code_simp

lemma example_hunk_split:
  "js_split (ustr ''diff --git a/f b/f'' @ [LF] @ ustr ''@@ -1 +1 @@'' @ [LF] @ ustr ''-a'' @ [LF] @
     [LF] @ ustr ''+b'' @ [LF] @ ustr ''-- '') =
   [ustr ''diff --git a/f b/f'', ustr ''@@ -1 +1 @@'', ustr ''-a''] @ [] # [ustr ''+b'', ustr ''-- '']"
  "js_split (ustr ''diff --git a/f b/f'' @ [LF] @ ustr ''@@ -1 +1 @@'' @ [LF] @ ustr ''-a'' @ [LF] @
     [LF] @ ustr ''+b'' @ [LF] @ ustr ''-- '') =
   [ustr ''diff --git a/f b/f'', ustr ''@@ -1 +1 @@'', ustr ''-a'', []] @ ustr ''+b'' # [ustr ''-- '']"
  "js_split (ustr ''diff --git a/f b/f'' @ [LF] @ ustr ''@@ -1 +1 @@'' @ [LF] @ ustr ''-a'' @ [LF] @
     [LF] @ ustr ''+b'' @ [LF] @ ustr ''-- '') =
   [ustr ''diff --git a/f b/f'', ustr ''@@ -1 +1 @@'', ustr ''-a'', [], ustr ''+b''] @ ustr ''-- '' # []"
  "js_split [] = [] @ [] # []"
  by code_simp+

lemma example_hunk_run:
  "run init [ustr ''diff --git a/f b/f'', ustr ''@@ -1 +1 @@'', ustr ''-a''] =
   Inr \<lparr>patchBody = ustr ''diff --git a/f b/f'' @ [LF] @ ustr ''@@ -1 +1 @@'' @ [LF] @
          ustr ''-a'' @ [CR, LF],
        addedLines = 1, deletedLines = 0, ascii = True, patchState = PatchStateHunk,
        success = True, filePath = Some (ustr ''/f'')\<rparr>"
  "run init [ustr ''diff --git a/f b/f'', ustr ''@@ -1 +1 @@'', ustr ''-a'', []] =
   Inr \<lparr>patchBody = ustr ''diff --git a/f b/f'' @ [LF] @ ustr ''@@ -1 +1 @@'' @ [LF] @
          ustr ''-a'' @ [CR, LF],
        addedLines = 1, deletedLines = 0, ascii = True, patchState = PatchStateHunk,
        success = True, filePath = Some (ustr ''/f'')\<rparr>"
  "run init [ustr ''diff --git a/f b/f'', ustr ''@@ -1 +1 @@'', ustr ''-a'', [], ustr ''+b''] =
   Inr \<lparr>patchBody = ustr ''diff --git a/f b/f'' @ [LF] @ ustr ''@@ -1 +1 @@'' @ [LF] @
          ustr ''-a'' @ [CR, LF] @ ustr ''+b'' @ [CR, LF],
        addedLines = 0, deletedLines = 0, ascii = True, patchState = PatchStateHunkEnd,
        success = True, filePath = Some (ustr ''/f'')\<rparr>"
  by code_simp+

lemma example_hunk_branch:
  "branch_of PatchStateHunk (ustr ''+b'') = HunkLine"
  "branch_of PatchStateHunkEnd (ustr ''-- '') \<noteq> HunkLine"
  by (simp add: branch_of_def) (simp add: signature_branch)

lemma example_hunk_suffix: "\<not> endsWith (ustr ''/f'') (ustr ''.sh'')"
  by code_simp

lemma example_abc_branch: "branch_of PatchStateStart (ustr ''abc'') = OtherLine"
proof -
  have "case branch_of PatchStateStart (ustr ''abc'') of OtherLine \<Rightarrow> True | _ \<Rightarrow> False"
    by code_simp
  then show ?thesis by (simp split: branch.splits)
qed

lemma example_abc:
  "js_split (ustr ''abc'') = [ustr ''abc'']"
  "convertToPatch (ustr ''abc'') = Inr (False, ustr ''abc'' @ [LF])"
  "convertToPatch (ustr ''abc'') \<noteq> Inr (False, ustr ''abc'' @ [CR, LF])"
  by code_simp+

lemma example_header_run:
  "run init [ustr ''diff --git a/f b/f''] =
   Inr \<lparr>patchBody = ustr ''diff --git a/f b/f'' @ [LF], addedLines = 0, deletedLines = 0,
        ascii = False, patchState = PatchStateFileHeader, success = True,
        filePath = Some (ustr ''/f'')\<rparr>"
  "run init [ustr ''diff --git a/f b/f'', ustr ''@@ -1 +1,2 @@'', ustr ''-a''] =
   Inr \<lparr>patchBody = ustr ''diff --git a/f b/f'' @ [LF] @ ustr ''@@ -1 +1,2 @@'' @ [LF] @
          ustr ''-a'' @ [CR, LF],
        addedLines = 2, deletedLines = 0, ascii = True, patchState = PatchStateHunk,
        success = True, filePath = Some (ustr ''/f'')\<rparr>"
  by code_simp+

lemma example_header_match:
  "case branch_of PatchStateFileHeader (ustr ''@@ -1 +1,2 @@'') of
     AsciiHunkHeaderLine m \<Rightarrow> m 1 = Some (ustr ''1'') \<and> m 2 = Some (ustr ''2'')
   | _ \<Rightarrow> False"
  by code_simp

lemma example_header_lines:
  "\<forall>l\<in>set [ustr ''-a'', ustr ''+b'', ustr ''+c'']. is_content l"
  "int (del_count [ustr ''-a'', ustr ''+b'', ustr ''+c'']) = parseInt (ustr ''1'')"
  "int (add_count [ustr ''-a'', ustr ''+b'', ustr ''+c'']) = parseInt (ustr ''2'')"
  "\<forall>l\<in>set [ustr ''-a'', ustr ''-b'']. is_content l"
  "parseInt (ustr ''1'') < int (del_count [ustr ''-a'', ustr ''-b''])"
  "parseInt (ustr ''1'') = 1" "parseInt (ustr ''2'') = 2"
  by code_simp+

subsection \<open>Suffixes\<close>

lemma endsWith_append: "endsWith (a @ b) b"
  by (simp add: endsWith_def)

lemma endsWith_append_cancel: "endsWith (a @ c) (b @ c) \<longleftrightarrow> endsWith a b"
  by (auto simp: endsWith_def)

subsection \<open>The verdict\<close>

lemma step_Inr_cases [consumes 1, case_names FileHeader AsciiHeader BinaryHeader SubHeader AsciiHunk BinaryHunk Signature Other]:
  assumes "step s line = Inr s'"
  obtains
    m p1 p2 where "branch_of (patchState s) line = FileHeaderLine m" "m 1 = Some p1" "m 2 = Some p2"
      "s' = emit (s\<lparr>patchState := PatchStateFileHeader, success := success s \<and> p1 = p2,
                     filePath := Some p1\<rparr>) line True"
  | m d a where "branch_of (patchState s) line = AsciiHunkHeaderLine m" "m 1 = Some d" "m 2 = Some a"
      "s' = emit (s\<lparr>patchState := PatchStateHunkHeader, ascii := True,
                     deletedLines := parseInt d, addedLines := parseInt a\<rparr>) line True"
  | "branch_of (patchState s) line = BinaryHunkHeaderLine"
      "s' = emit (s\<lparr>patchState := PatchStateHunkHeader, ascii := False\<rparr>) line True"
  | "branch_of (patchState s) line = BinarySubHeaderLine"
      "s' = emit (s\<lparr>success := success s \<and> \<not> ascii s,
                     patchState := PatchStateHunkHeader\<rparr>) line True"
  | fp where "branch_of (patchState s) line = HunkLine" "ascii s" "filePath s = Some fp"
      "s' = emit (s\<lparr>addedLines := addedLines_after s line,
                     deletedLines := deletedLines_after s line,
                     patchState := (if addedLines_after s line = 0 \<and> deletedLines_after s line = 0
                                    then PatchStateHunkEnd else PatchStateHunk),
                     success := success s \<and> 0 \<le> addedLines_after s line \<and>
                                0 \<le> deletedLines_after s line\<rparr>)
                 line (endsWith fp (ustr ''.sh''))"
  | "branch_of (patchState s) line = HunkLine" "\<not> ascii s"
      "s' = emit (s\<lparr>patchState := (if rx_match regexPatchHunkBinary line = None
                                    then PatchStateHunkEnd else PatchStateHunk)\<rparr>) line True"
  | "branch_of (patchState s) line = SignatureLine"
      "s' = emit (s\<lparr>patchState := PatchStateEnd\<rparr>) line True"
  | "branch_of (patchState s) line = OtherLine" "s' = emit s line True"
proof (cases "branch_of (patchState s) line")
  case (FileHeaderLine m)
  with assms that(1) [of m] show ?thesis
    by (cases "m 1"; cases "m 2") (simp_all add: step_def)
next
  case (AsciiHunkHeaderLine m)
  with assms that(2) [of m] show ?thesis
    by (cases "m 1"; cases "m 2") (simp_all add: step_def)
next
  case BinaryHunkHeaderLine
  with assms that(3) show ?thesis by (simp add: step_def)
next
  case BinarySubHeaderLine
  with assms that(4) show ?thesis by (simp add: step_def)
next
  case HunkLine
  show ?thesis
  proof (cases "ascii s")
    case True
    with HunkLine assms that(5) show ?thesis
      by (cases "filePath s") (simp_all add: step_def Let_def)
  next
    case False
    with HunkLine assms that(6) show ?thesis by (simp add: step_def)
  qed
next
  case SignatureLine
  with assms that(7) show ?thesis by (simp add: step_def)
next
  case OtherLine
  with assms that(8) show ?thesis by (simp add: step_def)
qed

lemma step_success: "step s line = Inr s' \<Longrightarrow> success s' = (success s \<and> \<not> violation s line)"
  by (cases rule: step_Inr_cases) (auto simp: violation_def)

lemma run_success: "run s lines = Inr s' \<Longrightarrow> success s' = (success s \<and> \<not> violated s lines)"
proof (induction lines arbitrary: s)
  case Nil
  then show ?case by simp
next
  case (Cons line lines)
  then obtain s1 where s1: "step s line = Inr s1" "run s1 lines = Inr s'"
    by (auto split: sum.splits)
  from Cons.IH [OF s1(2)] step_success [OF s1(1)] s1(1) show ?case by auto
qed

lemma violated_append:
  "run s pre = Inr s1 \<Longrightarrow> violated s (pre @ rest) = (violated s pre \<or> violated s1 rest)"
proof (induction pre arbitrary: s)
  case Nil
  then show ?case by simp
next
  case (Cons line pre)
  then obtain s0 where s0: "step s line = Inr s0" "run s0 pre = Inr s1"
    by (auto split: sum.splits)
  from Cons.IH [OF s0(2)] s0(1) show ?case by auto
qed

lemma branch_of_End: "branch_of PatchStateEnd line = OtherLine"
  by (simp add: branch_of_def)

lemma step_End:
  "patchState s = PatchStateEnd \<Longrightarrow> \<exists>s'. step s line = Inr s' \<and> patchState s' = PatchStateEnd"
  by (simp add: step_def branch_of_End)

lemma run_End:
  "patchState s = PatchStateEnd \<Longrightarrow> \<exists>s'. run s lines = Inr s' \<and> patchState s' = PatchStateEnd"
proof (induction lines arbitrary: s)
  case Nil
  then show ?case by simp
next
  case (Cons line lines)
  from step_End [OF Cons.prems, of line] obtain s1
    where "step s line = Inr s1" "patchState s1 = PatchStateEnd" by blast
  with Cons.IH [of s1] show ?case by simp
qed

lemma step_to_End:
  assumes "step s line = Inr s'" "patchState s' = PatchStateEnd" "patchState s \<noteq> PatchStateEnd"
  shows "patchState s = PatchStateHunkEnd \<and> line = ustr ''-- ''"
  using assms by (cases rule: step_Inr_cases) (auto dest: branch_of_SignatureLine split: if_splits)

lemma run_to_End:
  "run s lines = Inr s' \<Longrightarrow> patchState s' = PatchStateEnd \<Longrightarrow> patchState s \<noteq> PatchStateEnd \<Longrightarrow>
     \<exists>pre post s0. lines = pre @ ustr ''-- '' # post \<and> run s pre = Inr s0 \<and>
       patchState s0 = PatchStateHunkEnd"
proof (induction lines arbitrary: s)
  case Nil
  then show ?case by simp
next
  case (Cons line lines)
  then obtain s1 where s1: "step s line = Inr s1" "run s1 lines = Inr s'"
    by (auto split: sum.splits)
  show ?case
  proof (cases "patchState s1 = PatchStateEnd")
    case True
    from step_to_End [OF s1(1) True Cons.prems(3)]
    have "line # lines = [] @ ustr ''-- '' # lines \<and> run s [] = Inr s \<and>
      patchState s = PatchStateHunkEnd" by simp
    then show ?thesis by blast
  next
    case False
    from Cons.IH [OF s1(2) Cons.prems(2) False] obtain pre post s0 where
      "lines = pre @ ustr ''-- '' # post" "run s1 pre = Inr s0" "patchState s0 = PatchStateHunkEnd"
      by blast
    with s1(1) have "line # lines = (line # pre) @ ustr ''-- '' # post \<and>
      run s (line # pre) = Inr s0 \<and> patchState s0 = PatchStateHunkEnd" by simp
    then show ?thesis by blast
  qed
qed

lemma step_signature:
  "patchState s = PatchStateHunkEnd \<Longrightarrow>
     \<exists>s'. step s (ustr ''-- '') = Inr s' \<and> patchState s' = PatchStateEnd"
  by (simp add: step_def signature_branch)

lemma success_violated:
  "\<exists>s. run init (js_split bodyText) = Inr s \<and>
       success s = (\<not> violated init (js_split bodyText))"
proof -
  from run_total [OF path_known_init] obtain s where s: "run init (js_split bodyText) = Inr s"
    by blast
  from run_success [OF s] have "success s = (\<not> violated init (js_split bodyText))"
    by (simp add: init_def)
  with s show ?thesis by blast
qed

subsection \<open>What a line adds to the output\<close>

lemma step_chunk:
  assumes "step s line = Inr s'"
  shows "patchBody s' = patchBody s @
     (if (patchState s' = PatchStateHunk \<or> patchState s' = PatchStateHunkEnd) \<and> ascii s' \<and> line = []
      then []
      else replaceAll_nbsp line @
        (if branch_of (patchState s) line = HunkLine \<and> ascii s \<and>
            (\<exists>fp. filePath s = Some fp \<and> \<not> endsWith fp (ustr ''.sh''))
         then [CR, LF] else [LF]))"
  using assms by (cases rule: step_Inr_cases) (simp_all add: emit_def)

lemma run_patchBody: "run s lines = Inr s' \<Longrightarrow> \<exists>rest. patchBody s' = patchBody s @ rest"
proof (induction lines arbitrary: s)
  case Nil
  then show ?case by simp
next
  case (Cons line lines)
  then obtain s1 where s1: "step s line = Inr s1" "run s1 lines = Inr s'"
    by (auto split: sum.splits)
  from Cons.IH [OF s1(2)] obtain r where "patchBody s' = patchBody s1 @ r" by blast
  with step_chunk [OF s1(1)] show ?case by simp
qed

lemma scan_line:
  assumes "js_split bodyText = pre @ line # post"
  shows "\<exists>s s' ok rest. run init pre = Inr s \<and> step s line = Inr s' \<and>
           convertToPatch bodyText = Inr (ok, patchBody s' @ rest)"
proof -
  from run_total [OF path_known_init] obtain s where s: "run init pre = Inr s" "path_known s"
    by blast
  from step_total [OF s(2)] obtain s' where s': "step s line = Inr s'" "path_known s'"
    by blast
  from run_total [OF s'(2)] obtain s'' where s'': "run s' post = Inr s''"
    by blast
  from run_patchBody [OF s''] obtain rest where rest: "patchBody s'' = patchBody s' @ rest"
    by blast
  from assms s(1) s'(1) s'' have "run init (js_split bodyText) = Inr s''"
    by (simp add: run_append)
  with rest have "convertToPatch bodyText =
      Inr (if patchState s'' \<noteq> PatchStateEnd then False else success s'', patchBody s' @ rest)"
    by (simp add: convertToPatch_def finish_def)
  with s(1) s'(1) show ?thesis by blast
qed

lemma no_match_empty:
  "rx_match regexPatchFileHeader [] = None"
  "rx_match regexPatchHunkAsciiHeader [] = None"
  "rx_match regexPatchHunkBinarySubHeader [] = None"
  by (simp_all add: rx_match_def regexPatchFileHeader_def regexPatchHunkAsciiHeader_def
      regexPatchHunkBinarySubHeader_def)

lemma branch_of_empty:
  "branch_of st [] =
     (if st = PatchStateHunkHeader \<or> st = PatchStateHunk then HunkLine else OtherLine)"
  by (simp add: branch_of_def no_match_empty ustr_def)

lemma step_empty:
  assumes "step s [] = Inr s'"
  shows "(if (patchState s' = PatchStateHunk \<or> patchState s' = PatchStateHunkEnd) \<and> ascii s'
          then patchBody s' = patchBody s \<and> addedLines s' = addedLines s \<and>
               deletedLines s' = deletedLines s
          else patchBody s' = patchBody s @ [LF]) \<and>
         patchBody s' =
           (if ascii s \<and> (patchState s = PatchStateHunkHeader \<or> patchState s = PatchStateHunk \<or>
                          patchState s = PatchStateHunkEnd)
            then patchBody s else patchBody s @ [LF])"
  using assms
  by (cases rule: step_Inr_cases)
    (auto simp: emit_def branch_of_empty addedLines_after_def deletedLines_after_def counted_def
      replaceAll_nbsp_def split: if_splits)

subsection \<open>The lines of an ascii hunk\<close>

lemma rx_from_Bol: "0 < i \<Longrightarrow> rx_from (Cat Bol r) i s = None"
  by (induction s arbitrary: i) simp_all

lemma content_no_sub_header:
  assumes "is_content line"
  shows "rx_match regexPatchHunkBinarySubHeader line = None"
proof -
  from assms obtain c cs where l: "line = c # cs" and c: "c = 0x20 \<or> c = 0x2B \<or> c = 0x2D"
    by (cases line) (auto simp: is_content_def counts_deleted_def counts_added_def charAt0_def SP_def)
  from c have "rx_exec regexPatchHunkBinarySubHeader (0, c # cs, Map.empty) = []"
    by (auto simp: regexPatchHunkBinarySubHeader_def)
  then show ?thesis
    by (simp add: rx_match_def l) (simp add: regexPatchHunkBinarySubHeader_def rx_from_Bol)
qed

lemma content_branch:
  "is_content line \<Longrightarrow> st = PatchStateHunkHeader \<or> st = PatchStateHunk \<Longrightarrow>
     branch_of st line = HunkLine"
  by (auto simp: branch_of_def content_no_sub_header)

lemma content_counted: "is_content line \<Longrightarrow> counted line"
  by (cases line)
    (auto simp: is_content_def counts_deleted_def counts_added_def charAt0_def counted_def SP_def)

lemma step_content:
  assumes "is_content line" "patchState s = PatchStateHunkHeader \<or> patchState s = PatchStateHunk"
    "ascii s" "filePath s = Some fp"
  shows "\<exists>s'. step s line = Inr s' \<and> ascii s' \<and> filePath s' = Some fp \<and>
     deletedLines s' = deletedLines s - (if counts_deleted line then 1 else 0) \<and>
     addedLines s' = addedLines s - (if counts_added line then 1 else 0) \<and>
     patchState s' = (if addedLines s' = 0 \<and> deletedLines s' = 0
                      then PatchStateHunkEnd else PatchStateHunk) \<and>
     success s' = (success s \<and> 0 \<le> addedLines s' \<and> 0 \<le> deletedLines s')"
  using assms content_branch [OF assms(1,2)] content_counted [OF assms(1)]
  by (simp add: step_def Let_def addedLines_after_def deletedLines_after_def
      counts_deleted_def counts_added_def)

lemma count_Cons:
  "del_count (l # ls) = (if counts_deleted l then 1 else 0) + del_count ls"
  "add_count (l # ls) = (if counts_added l then 1 else 0) + add_count ls"
  by (simp_all add: del_count_def add_count_def)

lemma count_snoc:
  "del_count (ls @ [l]) = del_count ls + (if counts_deleted l then 1 else 0)"
  "add_count (ls @ [l]) = add_count ls + (if counts_added l then 1 else 0)"
  by (simp_all add: del_count_def add_count_def)

lemma count_pos:
  "\<forall>l\<in>set ls. is_content l \<Longrightarrow> ls \<noteq> [] \<Longrightarrow> 0 < del_count ls + add_count ls"
  by (cases ls) (auto simp: count_Cons is_content_def)

lemma hunk_closes:
  assumes "\<forall>l\<in>set ls. is_content l" "ls \<noteq> []"
    "patchState s = PatchStateHunkHeader \<or> patchState s = PatchStateHunk"
    "ascii s" "filePath s = Some fp"
    "deletedLines s = int (del_count ls)" "addedLines s = int (add_count ls)"
  shows "\<exists>s'. run s ls = Inr s' \<and> patchState s' = PatchStateHunkEnd \<and> success s' = success s"
  using assms
proof (induction ls arbitrary: s)
  case Nil
  then show ?case by simp
next
  case (Cons l ls)
  from Cons.prems(1) have l: "is_content l" by simp
  from step_content [OF l Cons.prems(3-5)] obtain s1 where
    s1: "step s l = Inr s1" "ascii s1" "filePath s1 = Some fp"
      "deletedLines s1 = deletedLines s - (if counts_deleted l then 1 else 0)"
      "addedLines s1 = addedLines s - (if counts_added l then 1 else 0)"
      "patchState s1 = (if addedLines s1 = 0 \<and> deletedLines s1 = 0
                      then PatchStateHunkEnd else PatchStateHunk)"
      "success s1 = (success s \<and> 0 \<le> addedLines s1 \<and> 0 \<le> deletedLines s1)"
    by blast
  from s1(4,5) Cons.prems(6,7) have c: "deletedLines s1 = int (del_count ls)"
    "addedLines s1 = int (add_count ls)"
    by (simp_all add: count_Cons)
  with s1(7) have ok: "success s1 = success s" by simp
  show ?case
  proof (cases "ls = []")
    case True
    with c s1(6) have "patchState s1 = PatchStateHunkEnd"
      by (simp add: del_count_def add_count_def)
    with s1(1) ok True show ?thesis by simp
  next
    case False
    from Cons.prems(1) have all: "\<forall>l\<in>set ls. is_content l" by simp
    from count_pos [OF all False] c s1(6) have "patchState s1 = PatchStateHunk"
      by auto
    then have "patchState s1 = PatchStateHunkHeader \<or> patchState s1 = PatchStateHunk" by simp
    from Cons.IH [OF all False this s1(2,3) c] obtain s' where
      "run s1 ls = Inr s'" "patchState s' = PatchStateHunkEnd" "success s' = success s1"
      by blast
    with s1(1) ok show ?thesis by simp
  qed
qed

lemma hunk_counts:
  assumes "\<forall>l\<in>set ls. is_content l" "ascii s" "filePath s = Some fp"
    "\<forall>k<length ls. \<exists>sk. run s (take k ls) = Inr sk \<and>
       (patchState sk = PatchStateHunkHeader \<or> patchState sk = PatchStateHunk)"
  shows "\<exists>s'. run s ls = Inr s' \<and> ascii s' \<and> filePath s' = Some fp \<and>
     deletedLines s' = deletedLines s - int (del_count ls) \<and>
     addedLines s' = addedLines s - int (add_count ls) \<and>
     (ls \<noteq> [] \<longrightarrow> success s' \<longrightarrow> 0 \<le> deletedLines s' \<and> 0 \<le> addedLines s')"
  using assms
proof (induction ls rule: rev_induct)
  case Nil
  then show ?case by (simp add: del_count_def add_count_def)
next
  case (snoc l ls)
  from snoc.prems(1) have all: "\<forall>l\<in>set ls. is_content l" and l: "is_content l" by simp_all
  have "\<forall>k<length ls. \<exists>sk. run s (take k ls) = Inr sk \<and>
       (patchState sk = PatchStateHunkHeader \<or> patchState sk = PatchStateHunk)"
  proof (intro allI impI)
    fix k assume "k < length ls"
    with snoc.prems(4) [rule_format, of k] show "\<exists>sk. run s (take k ls) = Inr sk \<and>
       (patchState sk = PatchStateHunkHeader \<or> patchState sk = PatchStateHunk)"
      by simp
  qed
  from snoc.IH [OF all snoc.prems(2,3) this] obtain s1 where
    s1: "run s ls = Inr s1" "ascii s1" "filePath s1 = Some fp"
      "deletedLines s1 = deletedLines s - int (del_count ls)"
      "addedLines s1 = addedLines s - int (add_count ls)"
    by blast
  from snoc.prems(4) [rule_format, of "length ls"] s1(1)
  have st: "patchState s1 = PatchStateHunkHeader \<or> patchState s1 = PatchStateHunk"
    by simp
  from step_content [OF l st s1(2,3)] obtain s' where
    s': "step s1 l = Inr s'" "ascii s'" "filePath s' = Some fp"
      "deletedLines s' = deletedLines s1 - (if counts_deleted l then 1 else 0)"
      "addedLines s' = addedLines s1 - (if counts_added l then 1 else 0)"
      "success s' = (success s1 \<and> 0 \<le> addedLines s' \<and> 0 \<le> deletedLines s')"
    by blast
  from s1(1) s'(1) have "run s (ls @ [l]) = Inr s'"
    by (simp add: run_append)
  moreover from s1(4,5) s'(4,5) have "deletedLines s' = deletedLines s - int (del_count (ls @ [l]))"
    "addedLines s' = addedLines s - int (add_count (ls @ [l]))"
    by (simp_all add: count_snoc)
  ultimately show ?case using s'(2,3,6) by auto
qed

lemma run_path_known: "run s lines = Inr s' \<Longrightarrow> path_known s \<Longrightarrow> path_known s'"
  using run_total [of s lines] by auto

subsection \<open>Non-breaking spaces\<close>

lemma replaced_conf_simp [simp]:
  "replaced_conf (j, s, g) = (j, replaceAll_nbsp s, replaced_caps g)"
  by (simp add: replaced_conf_def)

lemma replaceAll_Cons [simp]:
  "replaceAll_nbsp [] = []"
  "replaceAll_nbsp (c # cs) = (if c = NBSP then SP else c) # replaceAll_nbsp cs"
  by (simp_all add: replaceAll_nbsp_def)

lemma one_of_inert:
  "p NBSP = p SP \<Longrightarrow> one_of p (replaced_conf c) = map replaced_conf (one_of p c)"
proof -
  assume p: "p NBSP = p SP"
  obtain i s g where c: "c = (i, s, g)" by (cases c)
  show ?thesis unfolding c using p by (cases s) auto
qed

lemma star_greedy_inert:
  "p NBSP = p SP \<Longrightarrow>
     star_greedy p (i, replaceAll_nbsp s, replaced_caps g) =
     map replaced_conf (star_greedy p (i, s, g))"
  by (induction s arbitrary: i) auto

lemma star_greedy_inert_conf:
  "p NBSP = p SP \<Longrightarrow> star_greedy p (replaced_conf c) = map replaced_conf (star_greedy p c)"
  by (cases c) (simp add: star_greedy_inert)

lemma star_lazy_inert:
  "p NBSP = p SP \<Longrightarrow>
     star_lazy p (i, replaceAll_nbsp s, replaced_caps g) =
     map replaced_conf (star_lazy p (i, s, g))"
  by (induction s arbitrary: i) auto

lemma star_lazy_inert_conf:
  "p NBSP = p SP \<Longrightarrow> star_lazy p (replaced_conf c) = map replaced_conf (star_lazy p c)"
  by (cases c) (simp add: star_lazy_inert)

lemma concat_map_inert:
  assumes "\<And>c. h (replaced_conf c) = map replaced_conf (h c)"
  shows "concat (map h (map replaced_conf cs)) = map replaced_conf (concat (map h cs))"
  by (induction cs) (simp_all add: assms)

lemma rx_exec_inert:
  "inert r \<Longrightarrow> rx_exec r (replaced_conf c) = map replaced_conf (rx_exec r c)"
proof (induction r arbitrary: c)
  case (Chr x)
  then have "(NBSP = x) = (SP = x)" by auto
  then show ?case using one_of_inert [of "\<lambda>y. y = x" c] by simp
next
  case (Cls p)
  then show ?case by (simp add: one_of_inert)
next
  case (Star p)
  then show ?case by (simp add: star_greedy_inert_conf)
next
  case (Plus p)
  then have p: "p NBSP = p SP" by simp
  show ?case
    using concat_map_inert [of "star_greedy p" "one_of p c"]
    by (simp add: one_of_inert [OF p] star_greedy_inert_conf [OF p])
next
  case (LazyStar p)
  then show ?case by (simp add: star_lazy_inert_conf)
next
  case Eps
  then show ?case by simp
next
  case (Cat a b)
  then have a: "\<And>c. rx_exec a (replaced_conf c) = map replaced_conf (rx_exec a c)"
    and b: "\<And>c. rx_exec b (replaced_conf c) = map replaced_conf (rx_exec b c)"
    by simp_all
  show ?case
    using concat_map_inert [of "rx_exec b" "rx_exec a c", OF b]
    by (simp add: a)
next
  case (Alt a b)
  then show ?case by simp
next
  case (Opt a)
  then show ?case by simp
next
  case (Grp n a)
  obtain i s g where c: "c = (i, s, g)" by (cases c)
  from Grp.prems have "inert a" by simp
  from Grp.IH [OF this, of "(i, s, g)"]
  have a: "rx_exec a (i, replaceAll_nbsp s, replaced_caps g) = map replaced_conf (rx_exec a (i, s, g))"
    by simp
  have "replaced_caps (g'(n \<mapsto> take k s)) = (replaced_caps g')(n \<mapsto> take k (replaceAll_nbsp s))"
    for g' k
    by (auto simp: replaced_caps_def replaceAll_nbsp_def take_map)
  then show ?case
    unfolding c using a by (auto simp: replaced_conf_def)
next
  case Bol
  then show ?case by (cases c) simp
next
  case Eol
  then show ?case by (cases c) (auto simp: replaceAll_nbsp_def)
qed

lemma replaced_caps_empty [simp]: "replaced_caps Map.empty = Map.empty"
  by (simp add: replaced_caps_def)

lemma rx_from_inert:
  assumes "inert r"
  shows "rx_from r i (replaceAll_nbsp s) = map_option replaced_caps (rx_from r i s)"
proof (induction s arbitrary: i)
  case Nil
  from rx_exec_inert [OF assms, of "(i, [], Map.empty)"] show ?case
    by (cases "rx_exec r (i, [], Map.empty)") auto
next
  case (Cons c cs)
  from rx_exec_inert [OF assms, of "(i, c # cs, Map.empty)"]
  have "rx_exec r (i, replaceAll_nbsp (c # cs), Map.empty) =
      map replaced_conf (rx_exec r (i, c # cs, Map.empty))" by simp
  then show ?case
    using Cons.IH [of "Suc i"]
    by (cases "rx_exec r (i, c # cs, Map.empty)") (auto simp del: replaced_conf_simp simp: replaced_conf_def)
qed

lemma rx_match_inert:
  "inert r \<Longrightarrow> rx_match r (replaceAll_nbsp s) = None \<longleftrightarrow> rx_match r s = None"
  by (simp add: rx_match_def rx_from_inert)

lemma inert_classes:
  "is_space 0xA0 = is_space 0x20" "is_dot 0xA0 = is_dot 0x20" "is_digit 0xA0 = is_digit 0x20"
  "is_alpha 0xA0 = is_alpha 0x20" "is_nonspace 0xA0 = is_nonspace 0x20"
  by (simp_all add: is_space_def is_dot_def is_digit_def is_alpha_def is_nonspace_def)

lemma inert_regexes:
  "inert regexPatchFileHeader" "inert regexPatchHunkAsciiHeader"
  "inert regexPatchHunkBinarySubHeader" "inert regexPatchHunkBinary"
  by (simp_all add: regexPatchFileHeader_def regexPatchHunkAsciiHeader_def
      regexPatchHunkBinarySubHeader_def regexPatchHunkBinary_def inert_classes NBSP_def SP_def)

lemma replaceAll_id: "NBSP \<notin> set l \<Longrightarrow> replaceAll_nbsp l = l"
  by (induction l) auto

lemma replaceAll_idem [simp]: "replaceAll_nbsp (replaceAll_nbsp l) = replaceAll_nbsp l"
  by (induction l) (auto simp: NBSP_def SP_def)

lemma replaceAll_Nil_iff [simp]: "replaceAll_nbsp l = [] \<longleftrightarrow> l = []"
  by (cases l) auto

lemma replaceAll_literals:
  "replaceAll_nbsp (ustr ''GIT binary patch'') = ustr ''GIT binary patch''"
  "replaceAll_nbsp (ustr ''-- '') = ustr ''-- ''"
  "replaceAll_nbsp (0x5C # ustr '' No newline at end of file'') =
     0x5C # ustr '' No newline at end of file''"
  by code_simp+

lemma branch_of_inert:
  assumes "nbsp_inert l"
  shows "branch_of st (replaceAll_nbsp l) = branch_of st l"
proof (cases "NBSP \<in> set l")
  case False
  then show ?thesis by (simp add: replaceAll_id)
next
  case True
  with assms have h: "rx_match regexPatchFileHeader l = None"
    "rx_match regexPatchHunkAsciiHeader l = None"
    "replaceAll_nbsp l \<noteq> ustr ''GIT binary patch''" "replaceAll_nbsp l \<noteq> ustr ''-- ''"
    by (simp_all add: nbsp_inert_def)
  from h(3,4) replaceAll_literals have l: "l \<noteq> ustr ''GIT binary patch''" "l \<noteq> ustr ''-- ''"
    by auto
  from h(1,2) have r: "rx_match regexPatchFileHeader (replaceAll_nbsp l) = None"
    "rx_match regexPatchHunkAsciiHeader (replaceAll_nbsp l) = None"
    by (simp_all add: rx_match_inert inert_regexes)
  have sub: "(rx_match regexPatchHunkBinarySubHeader (replaceAll_nbsp l) = None) =
      (rx_match regexPatchHunkBinarySubHeader l = None)"
    by (simp add: rx_match_inert inert_regexes)
  show ?thesis
    unfolding branch_of_def by (simp only: h r l sub if_cancel option.case if_False simp_thms)
qed

lemma after_inert:
  assumes "nbsp_inert l"
  shows "addedLines_after s (replaceAll_nbsp l) = addedLines_after s l"
    and "deletedLines_after s (replaceAll_nbsp l) = deletedLines_after s l"
proof -
  have "counted (replaceAll_nbsp l) = counted l \<and>
      (charAt0 (replaceAll_nbsp l) = Some SP) = (charAt0 l = Some SP) \<and>
      (charAt0 (replaceAll_nbsp l) = Some (of_char CHR ''+'')) = (charAt0 l = Some (of_char CHR ''+'')) \<and>
      (charAt0 (replaceAll_nbsp l) = Some (of_char CHR ''-'')) = (charAt0 l = Some (of_char CHR ''-''))"
  proof (cases "NBSP \<in> set l")
    case False
    then show ?thesis by (simp add: replaceAll_id)
  next
    case True
    with assms have h: "charAt0 l \<noteq> Some NBSP"
      "replaceAll_nbsp l \<noteq> 0x5C # ustr '' No newline at end of file''"
      by (simp_all add: nbsp_inert_def)
    from h(2) replaceAll_literals(3) have "l \<noteq> 0x5C # ustr '' No newline at end of file''"
      by auto
    with h show ?thesis
      by (cases l) (auto simp: counted_def charAt0_def NBSP_def SP_def)
  qed
  then show "addedLines_after s (replaceAll_nbsp l) = addedLines_after s l"
    and "deletedLines_after s (replaceAll_nbsp l) = deletedLines_after s l"
    by (simp_all add: addedLines_after_def deletedLines_after_def)
qed

lemma emit_inert: "emit t (replaceAll_nbsp l) u = emit t l u"
  by (simp add: emit_def)

lemma step_inert:
  assumes "nbsp_inert l"
  shows "step s (replaceAll_nbsp l) = step s l"
proof -
  have b: "(rx_match regexPatchHunkBinary (replaceAll_nbsp l) = None) =
      (rx_match regexPatchHunkBinary l = None)"
    by (simp add: rx_match_inert inert_regexes)
  show ?thesis
    unfolding step_def branch_of_inert [OF assms] after_inert [OF assms] emit_inert b ..
qed

lemma run_inert:
  "\<forall>l\<in>set ls. nbsp_inert l \<Longrightarrow> run s (map replaceAll_nbsp ls) = run s ls"
  by (induction ls arbitrary: s) (simp_all add: step_inert split: sum.splits)

lemma split_from_LF: "split_from acc (LF # cs) = acc # split_from [] cs"
  by simp

lemma split_from_CRLF: "split_from acc (CR # LF # cs) = acc # split_from [] cs"
  by (simp add: CR_def LF_def)

lemma split_from_other:
  "c \<noteq> LF \<Longrightarrow> \<not> (c = CR \<and> (\<exists>ds. cs = LF # ds)) \<Longrightarrow>
     split_from acc (c # cs) = split_from (acc @ [c]) cs"
  by (cases cs) auto

lemma replaceAll_snoc:
  "replaceAll_nbsp (acc @ [c]) = replaceAll_nbsp acc @ [if c = NBSP then SP else c]"
  by (simp add: replaceAll_nbsp_def)

lemma replaceAll_starts_LF:
  "(\<exists>ds. replaceAll_nbsp cs = LF # ds) \<longleftrightarrow> (\<exists>ds. cs = LF # ds)"
  by (cases cs) (auto simp: NBSP_def SP_def LF_def)

lemma split_from_replaceAll:
  "split_from (replaceAll_nbsp acc) (replaceAll_nbsp cs) = map replaceAll_nbsp (split_from acc cs)"
proof (induction cs arbitrary: acc rule: length_induct)
  case (1 cs)
  have ne: "NBSP \<noteq> LF" "NBSP \<noteq> CR" "SP \<noteq> LF" "SP \<noteq> CR"
    by (simp_all add: NBSP_def SP_def LF_def CR_def)
  have keep: "(if LF = NBSP then SP else LF) = LF" "(if CR = NBSP then SP else CR) = CR"
    by (simp_all add: NBSP_def LF_def CR_def)
  show ?case
  proof (cases cs)
    case Nil
    then show ?thesis by simp
  next
    case (Cons c cs')
    have IH: "split_from (replaceAll_nbsp a) (replaceAll_nbsp t) = map replaceAll_nbsp (split_from a t)"
      if "length t < length cs" for a t
      using 1 that by blast
    consider (lf) "c = LF" | (crlf) ds where "c = CR" "cs' = LF # ds"
      | (other) "c \<noteq> LF" "\<not> (c = CR \<and> (\<exists>ds. cs' = LF # ds))"
      by blast
    then show ?thesis
    proof cases
      case lf
      have "split_from (replaceAll_nbsp acc) (replaceAll_nbsp cs) =
          replaceAll_nbsp acc # split_from (replaceAll_nbsp []) (replaceAll_nbsp cs')"
        by (simp only: Cons lf replaceAll_Cons split_from_LF keep)
      also have "\<dots> = replaceAll_nbsp acc # map replaceAll_nbsp (split_from [] cs')"
        using IH [of cs' "[]"] Cons by simp
      finally show ?thesis
        by (simp only: Cons lf split_from_LF list.map)
    next
      case crlf
      have "split_from (replaceAll_nbsp acc) (replaceAll_nbsp cs) =
          replaceAll_nbsp acc # split_from (replaceAll_nbsp []) (replaceAll_nbsp ds)"
        by (simp only: Cons crlf replaceAll_Cons split_from_CRLF keep)
      also have "\<dots> = replaceAll_nbsp acc # map replaceAll_nbsp (split_from [] ds)"
        using IH [of ds "[]"] Cons crlf by simp
      finally show ?thesis
        by (simp only: Cons crlf split_from_CRLF list.map)
    next
      case other
      let ?c = "if c = NBSP then SP else c"
      from other ne have c': "?c \<noteq> LF" "\<not> (?c = CR \<and> (\<exists>ds. replaceAll_nbsp cs' = LF # ds))"
        by (auto simp: replaceAll_starts_LF)
      have "split_from (replaceAll_nbsp acc) (replaceAll_nbsp cs) =
          split_from (replaceAll_nbsp acc) (?c # replaceAll_nbsp cs')"
        by (simp only: Cons replaceAll_Cons)
      also have "\<dots> = split_from (replaceAll_nbsp acc @ [?c]) (replaceAll_nbsp cs')"
        by (rule split_from_other [OF c'])
      also have "\<dots> = split_from (replaceAll_nbsp (acc @ [c])) (replaceAll_nbsp cs')"
        by (simp only: replaceAll_snoc)
      also have "\<dots> = map replaceAll_nbsp (split_from (acc @ [c]) cs')"
        using IH [of cs' "acc @ [c]"] Cons by simp
      also have "\<dots> = map replaceAll_nbsp (split_from acc cs)"
        by (simp only: Cons split_from_other [OF other])
      finally show ?thesis .
    qed
  qed
qed

lemma js_split_replaceAll: "js_split (replaceAll_nbsp b) = map replaceAll_nbsp (js_split b)"
  using split_from_replaceAll [of "[]" b] by (simp add: js_split_def)

lemma nbsp_inert_eval:
  "nbsp_inert line \<longleftrightarrow>
     NBSP \<notin> set line \<or>
     (charAt0 line \<noteq> Some NBSP \<and>
      Option.is_none (rx_match regexPatchFileHeader line) \<and>
      Option.is_none (rx_match regexPatchHunkAsciiHeader line) \<and>
      replaceAll_nbsp line \<noteq> ustr ''GIT binary patch'' \<and>
      replaceAll_nbsp line \<noteq> ustr ''-- '' \<and>
      replaceAll_nbsp line \<noteq> 0x5C # ustr '' No newline at end of file'')"
  by (simp add: nbsp_inert_def Option.is_none_def)

lemma example_inner_nbsp:
  "\<forall>line\<in>set (js_split (ustr ''diff --git a/f b/f'' @ [LF] @ ustr ''@@ -1 +1 @@'' @ [LF] @
      ustr '' a'' @ [NBSP] @ ustr ''b'' @ [LF] @ ustr ''-- '')). nbsp_inert line"
  unfolding nbsp_inert_eval by code_simp

lemma example_inner_nbsp_run:
  "convertToPatch (ustr ''diff --git a/f b/f'' @ [LF] @ ustr ''@@ -1 +1 @@'' @ [LF] @
      ustr '' a'' @ [NBSP] @ ustr ''b'' @ [LF] @ ustr ''-- '') =
   Inr (True, ustr ''diff --git a/f b/f'' @ [LF] @ ustr ''@@ -1 +1 @@'' @ [LF] @
      ustr '' a b'' @ [CR, LF] @ ustr ''-- '' @ [LF])"
  "NBSP \<in> set (ustr ''diff --git a/f b/f'' @ [LF] @ ustr ''@@ -1 +1 @@'' @ [LF] @
      ustr '' a'' @ [NBSP] @ ustr ''b'' @ [LF] @ ustr ''-- '')"
  by code_simp+

lemma run_emitted:
  "run s lines = Inr s' \<Longrightarrow>
     \<exists>eols text. patchBody s' = patchBody s @ text \<and> emitted_as lines eols text"
proof (induction lines arbitrary: s)
  case Nil
  then show ?case by (simp add: emitted_as_def)
next
  case (Cons line lines)
  then obtain s1 where s1: "step s line = Inr s1" "run s1 lines = Inr s'"
    by (auto split: sum.splits)
  from Cons.IH [OF s1(2)] obtain eols out where
    t: "patchBody s' = patchBody s1 @ out" "emitted_as lines eols out"
    by blast
  define e where "e =
    (if (patchState s1 = PatchStateHunk \<or> patchState s1 = PatchStateHunkEnd) \<and> ascii s1 \<and> line = []
     then None
     else Some (if branch_of (patchState s) line = HunkLine \<and> ascii s \<and>
                   (\<exists>fp. filePath s = Some fp \<and> \<not> endsWith fp (ustr ''.sh''))
                then [CR, LF] else [LF]))"
  define chunk where "chunk =
    (case e of None \<Rightarrow> [] | Some eol \<Rightarrow> map (\<lambda>c. if c = NBSP then SP else c) line @ eol)"
  from step_chunk [OF s1(1)] have c: "patchBody s1 = patchBody s @ chunk"
    by (simp add: chunk_def e_def replaceAll_nbsp_def)
  have e: "(e = None \<longrightarrow> line = []) \<and> (e = None \<or> e = Some [LF] \<or> e = Some [CR, LF])"
    by (simp add: e_def)
  from t(2) e have "emitted_as (line # lines) (e # eols) (chunk @ out)"
    by (simp add: emitted_as_def chunk_def)
  with t(1) c show ?case by auto
qed

lemma emitted_as_replaced:
  assumes "emitted_as (map replaceAll_nbsp lines) eols text"
  shows "emitted_as lines eols text"
proof -
  have z: "zip (map replaceAll_nbsp lines) eols = map (\<lambda>(l, e). (replaceAll_nbsp l, e)) (zip lines eols)"
    by (simp add: zip_map1)
  have r: "map (\<lambda>c. if c = NBSP then SP else c) (replaceAll_nbsp l) =
      map (\<lambda>c. if c = NBSP then SP else c) l" for l
    using replaceAll_idem [of l] by (simp add: replaceAll_nbsp_def)
  from assms show ?thesis
    unfolding emitted_as_def z
    by (auto simp: r case_prod_beta comp_def intro!: arg_cong [where f = concat])
qed

lemma example_nbsp_part000:
  "convertToPatch_part000 (ustr ''a'' @ [NBSP] @ ustr ''b'') = Inr (False, ustr ''a b'' @ [LF])"
  by code_simp

section \<open>The claims\<close>

text \<open>
  C6. \<^verbatim>\<open>convertToPatch\<close> is total: on every input text the loop ends without an
  exception and a pair (success, patchText) is returned. In particular, wherever a line
  of the input is handled as a line of an ascii hunk, the file path tested for the
  suffix \<^verbatim>\<open>.sh\<close> is a string (a file header has set it), and where the first
  character of such a line is inspected the line is not empty.
\<close>

theorem convertToPatch_total:
  "(\<exists>ok text. convertToPatch bodyText = Inr (ok, text)) \<and>
   (\<forall>pre line post. js_split bodyText = pre @ line # post \<longrightarrow>
      (\<exists>s. run init pre = Inr s \<and>
           (branch_of (patchState s) line = HunkLine \<and> ascii s \<longrightarrow> filePath s \<noteq> None) \<and>
           (branch_of (patchState s) line = HunkLine \<and> ascii s \<and> counted line \<longrightarrow>
              charAt0 line \<noteq> None)))"
proof (intro conjI allI impI)
  from run_total [OF path_known_init] obtain s where "run init (js_split bodyText) = Inr s"
    by blast
  then show "\<exists>ok text. convertToPatch bodyText = Inr (ok, text)"
    by (simp add: convertToPatch_def finish_def)
next
  fix pre line post
  assume "js_split bodyText = pre @ line # post"
  from run_total [OF path_known_init] obtain s where s: "run init pre = Inr s" "path_known s"
    by blast
  have "filePath s \<noteq> None" if "branch_of (patchState s) line = HunkLine"
    using branch_of_HunkLine [OF that] s(2) by (auto simp: path_known_def)
  moreover have "charAt0 line \<noteq> None" if "counted line"
    using that by (cases line) (auto simp: counted_def charAt0_def)
  ultimately show "\<exists>s. run init pre = Inr s \<and>
           (branch_of (patchState s) line = HunkLine \<and> ascii s \<longrightarrow> filePath s \<noteq> None) \<and>
           (branch_of (patchState s) line = HunkLine \<and> ascii s \<and> counted line \<longrightarrow>
              charAt0 line \<noteq> None)"
    using s(1) by blast
qed

text \<open>The theorem at a shell-script patch with one context line.\<close>

theorem convertToPatch_total_witness:
  "(\<exists>ok text. convertToPatch (ustr ''diff --git a/f.sh b/f.sh'' @ [LF] @ ustr ''@@ -1 +1 @@'' @ [LF] @
      ustr '' a'') = Inr (ok, text)) \<and>
   (\<exists>s. run init [ustr ''diff --git a/f.sh b/f.sh'', ustr ''@@ -1 +1 @@''] = Inr s \<and>
        branch_of (patchState s) (ustr '' a'') = HunkLine \<and> ascii s \<and> counted (ustr '' a'') \<and>
        filePath s \<noteq> None \<and> charAt0 (ustr '' a'') \<noteq> None)"
proof -
  note total = convertToPatch_total [of "ustr ''diff --git a/f.sh b/f.sh'' @ [LF] @
      ustr ''@@ -1 +1 @@'' @ [LF] @ ustr '' a''"]
  from total example_sh_split obtain s where
    s: "run init [ustr ''diff --git a/f.sh b/f.sh'', ustr ''@@ -1 +1 @@''] = Inr s" and
    path: "branch_of (patchState s) (ustr '' a'') = HunkLine \<and> ascii s \<longrightarrow> filePath s \<noteq> None" and
    first: "branch_of (patchState s) (ustr '' a'') = HunkLine \<and> ascii s \<and> counted (ustr '' a'') \<longrightarrow>
      charAt0 (ustr '' a'') \<noteq> None"
    by blast
  from s have "patchState s = PatchStateHunkHeader" "ascii s"
    unfolding example_sh_run by auto
  with path first example_sh_branch example_sh_counted
  have "branch_of (patchState s) (ustr '' a'') = HunkLine \<and> ascii s \<and> counted (ustr '' a'') \<and>
        filePath s \<noteq> None \<and> charAt0 (ustr '' a'') \<noteq> None"
    by simp
  with s total show ?thesis by blast
qed

text \<open>
  C7. For every input body, the returned patchText is, line by line of the body, each
  appended line with every non-breaking space (U+00A0) replaced by an ordinary space and
  followed by LF or CRLF (only empty lines are skipped), so no non-breaking space occurs
  anywhere in it. This holds for both copies of \<^verbatim>\<open>convertToPatch\<close>.
\<close>

theorem no_nbsp_in_patchText:
  "(\<exists>ok text eols. convertToPatch bodyText = Inr (ok, text) \<and>
      emitted_as (js_split bodyText) eols text \<and> NBSP \<notin> set text) \<and>
   (\<exists>ok text eols. convertToPatch_part000 bodyText = Inr (ok, text) \<and>
      emitted_as (js_split bodyText) eols text \<and> NBSP \<notin> set text)"
proof -
  have scan: "\<exists>ok text eols. finish (run init lines) = Inr (ok, text) \<and>
      emitted_as lines eols text \<and> NBSP \<notin> set text" for lines
  proof -
    from run_total [OF path_known_init] obtain s where s: "run init lines = Inr s"
      by blast
    from run_no_nbsp [OF s] have n: "NBSP \<notin> set (patchBody s)"
      by (simp add: init_def)
    from run_emitted [OF s] obtain eols where "emitted_as lines eols (patchBody s)"
      by (auto simp: init_def)
    with s n show ?thesis
      by (auto simp: finish_def)
  qed
  from scan [of "js_split bodyText"] have one:
    "\<exists>ok text eols. convertToPatch bodyText = Inr (ok, text) \<and>
      emitted_as (js_split bodyText) eols text \<and> NBSP \<notin> set text"
    by (simp add: convertToPatch_def)
  from scan [of "map replaceAll_nbsp (js_split bodyText)"] obtain ok out eols where
    "convertToPatch_part000 bodyText = Inr (ok, out)"
    "emitted_as (map replaceAll_nbsp (js_split bodyText)) eols out" "NBSP \<notin> set out"
    by (auto simp: convertToPatch_part000_def js_split_replaceAll)
  with emitted_as_replaced have
    "\<exists>ok text eols. convertToPatch_part000 bodyText = Inr (ok, text) \<and>
      emitted_as (js_split bodyText) eols text \<and> NBSP \<notin> set text"
    by blast
  with one show ?thesis by blast
qed

text \<open>The theorem at a line that holds a non-breaking space, for both copies.\<close>

theorem no_nbsp_in_patchText_witness:
  "convertToPatch (ustr ''a'' @ [NBSP] @ ustr ''b'') = Inr (False, ustr ''a b'' @ [LF]) \<and>
   convertToPatch_part000 (ustr ''a'' @ [NBSP] @ ustr ''b'') = Inr (False, ustr ''a b'' @ [LF]) \<and>
   ustr ''a b'' @ [LF] =
     map (\<lambda>c. if c = NBSP then SP else c) (ustr ''a'' @ [NBSP] @ ustr ''b'') @ [LF] \<and>
   NBSP \<notin> set (ustr ''a b'' @ [LF])"
proof -
  from no_nbsp_in_patchText [of "ustr ''a'' @ [NBSP] @ ustr ''b''"] obtain ok out eols where
    "convertToPatch (ustr ''a'' @ [NBSP] @ ustr ''b'') = Inr (ok, out)" "NBSP \<notin> set out"
    by blast
  with example_nbsp have "NBSP \<notin> set (ustr ''a b'' @ [LF])"
    by auto
  moreover from no_nbsp_in_patchText [of "ustr ''a'' @ [NBSP] @ ustr ''b''"] obtain ok' out' where
    "convertToPatch_part000 (ustr ''a'' @ [NBSP] @ ustr ''b'') = Inr (ok', out')"
    "NBSP \<notin> set out'"
    by blast
  moreover have "ustr ''a b'' @ [LF] =
     map (\<lambda>c. if c = NBSP then SP else c) (ustr ''a'' @ [NBSP] @ ustr ''b'') @ [LF]"
    by code_simp
  ultimately show ?thesis
    using example_nbsp example_nbsp_part000 by blast
qed

text \<open>
  C10, as amended. For every input body, the \<^verbatim>\<open>convertToPatch\<close> of the second copy
  returns what the \<^verbatim>\<open>convertToPatch\<close> of \<^verbatim>\<open>src/commands/patchUtils.js\<close> returns on the
  body with every non-breaking space replaced by a space. The two return the same pair
  on the body itself whenever each of its lines either holds no non-breaking space, or
  does not start with one, is no file header and no ascii hunk header, and is not turned
  by the replacement into \<^verbatim>\<open>GIT binary patch\<close>, into \<^verbatim>\<open>"-- "\<close> or into the no-newline
  marker.
\<close>

theorem copies_related:
  "convertToPatch_part000 bodyText = convertToPatch (replaceAll_nbsp bodyText) \<and>
   ((\<forall>line\<in>set (js_split bodyText). nbsp_inert line) \<longrightarrow>
      convertToPatch_part000 bodyText = convertToPatch bodyText)"
  by (simp add: convertToPatch_part000_def convertToPatch_def js_split_replaceAll run_inert)

text \<open>
  The theorem at a one-hunk patch whose context line holds a non-breaking space: both
  copies succeed, with the same text.
\<close>

theorem copies_related_witness:
  "NBSP \<in> set (ustr ''diff --git a/f b/f'' @ [LF] @ ustr ''@@ -1 +1 @@'' @ [LF] @
      ustr '' a'' @ [NBSP] @ ustr ''b'' @ [LF] @ ustr ''-- '') \<and>
   convertToPatch_part000 (ustr ''diff --git a/f b/f'' @ [LF] @ ustr ''@@ -1 +1 @@'' @ [LF] @
      ustr '' a'' @ [NBSP] @ ustr ''b'' @ [LF] @ ustr ''-- '') =
   Inr (True, ustr ''diff --git a/f b/f'' @ [LF] @ ustr ''@@ -1 +1 @@'' @ [LF] @
      ustr '' a b'' @ [CR, LF] @ ustr ''-- '' @ [LF]) \<and>
   convertToPatch (ustr ''diff --git a/f b/f'' @ [LF] @ ustr ''@@ -1 +1 @@'' @ [LF] @
      ustr '' a'' @ [NBSP] @ ustr ''b'' @ [LF] @ ustr ''-- '') =
   Inr (True, ustr ''diff --git a/f b/f'' @ [LF] @ ustr ''@@ -1 +1 @@'' @ [LF] @
      ustr '' a b'' @ [CR, LF] @ ustr ''-- '' @ [LF])"
proof -
  from copies_related [of "ustr ''diff --git a/f b/f'' @ [LF] @ ustr ''@@ -1 +1 @@'' @ [LF] @
      ustr '' a'' @ [NBSP] @ ustr ''b'' @ [LF] @ ustr ''-- ''"] example_inner_nbsp
  have "convertToPatch_part000 (ustr ''diff --git a/f b/f'' @ [LF] @ ustr ''@@ -1 +1 @@'' @ [LF] @
      ustr '' a'' @ [NBSP] @ ustr ''b'' @ [LF] @ ustr ''-- '') =
    convertToPatch (ustr ''diff --git a/f b/f'' @ [LF] @ ustr ''@@ -1 +1 @@'' @ [LF] @
      ustr '' a'' @ [NBSP] @ ustr ''b'' @ [LF] @ ustr ''-- '')"
    by blast
  with example_inner_nbsp_run show ?thesis
    by (simp only: simp_thms)
qed

text \<open>
  C10 as stated fails. The second copy replaces the non-breaking spaces before the lines
  are matched, the first only when a line is emitted. A context line that starts with a
  non-breaking space is counted by the second copy only: the second copy closes the hunk
  and succeeds, the first does not.
\<close>

theorem copies_differ:
  "convertToPatch (ustr ''diff --git a/f b/f'' @ [LF] @ ustr ''@@ -1 +1 @@'' @ [LF] @
      [NBSP] @ ustr ''a'' @ [LF] @ ustr ''-- '') \<noteq>
   convertToPatch_part000 (ustr ''diff --git a/f b/f'' @ [LF] @ ustr ''@@ -1 +1 @@'' @ [LF] @
      [NBSP] @ ustr ''a'' @ [LF] @ ustr ''-- '')"
  by code_simp

text \<open>
  C9, as amended. For every subject, \<^verbatim>\<open>getPatchFileName(subject, false)\<close> ends in
  \<^verbatim>\<open>.warning.patch\<close>; \<^verbatim>\<open>getPatchFileName(subject, true)\<close> ends in \<^verbatim>\<open>.warning.patch\<close>
  exactly when the sanitized subject, to which \<^verbatim>\<open>.patch\<close> is appended, itself ends in
  \<^verbatim>\<open>.warning\<close>.
\<close>

theorem warning_suffix:
  "endsWith (getPatchFileName big subject False) (ustr ''.warning.patch'') \<and>
   (endsWith (getPatchFileName big subject True) (ustr ''.warning.patch'') \<longleftrightarrow>
    endsWith (sanitized big subject) (ustr ''.warning''))"
proof -
  have w: "ustr ''.warning.patch'' = ustr ''.warning'' @ ustr ''.patch''"
    by (simp add: ustr_def)
  have "getPatchFileName big subject False = sanitized big subject @ ustr ''.warning.patch''"
    by (simp add: getPatchFileName_def w)
  moreover have "getPatchFileName big subject True = sanitized big subject @ ustr ''.patch''"
    by (simp add: getPatchFileName_def)
  ultimately show ?thesis
    by (simp add: endsWith_append) (simp add: w endsWith_append_cancel)
qed

text \<open>The theorem at the subject of a second patch of five.\<close>

theorem warning_suffix_witness:
  "endsWith (getPatchFileName (\<lambda>n. []) (ustr ''[edk2-devel] [PATCH V2 2/5] Add FooLib support.'')
     False) (ustr ''.warning.patch'') \<and>
   \<not> endsWith (getPatchFileName (\<lambda>n. []) (ustr ''[edk2-devel] [PATCH V2 2/5] Add FooLib support.'')
     True) (ustr ''.warning.patch'')"
  using warning_suffix [of "\<lambda>n. []" "ustr ''[edk2-devel] [PATCH V2 2/5] Add FooLib support.''"]
    example_subject
  by blast

text \<open>
  C9 as stated fails in its second half. A subject without a \<^verbatim>\<open>[PATCH]\<close> tag is kept
  as it is, periods are not replaced, and only \<^verbatim>\<open>.patch\<close> is appended: the subject
  \<^verbatim>\<open>foo.warning\<close> with success \<^verbatim>\<open>true\<close> gives \<^verbatim>\<open>foo.warning.patch\<close>.
\<close>

theorem warning_suffix_on_success:
  "getPatchFileName (\<lambda>n. []) (ustr ''foo.warning'') True = ustr ''foo.warning.patch'' \<and>
   endsWith (getPatchFileName (\<lambda>n. []) (ustr ''foo.warning'') True) (ustr ''.warning.patch'')"
  by code_simp

text \<open>
  C1. For every input body, \<^verbatim>\<open>convertToPatch\<close> returns success = true if and only if
  the parse state after the last line is End and no violation (path mismatch, mode
  conflict, counter below zero) was recorded during the scan; the final state is End
  exactly when a line \<^verbatim>\<open>"-- "\<close> was met in state HunkEnd. Ending in any other state gives
  success = false.
\<close>

theorem success_iff_End_and_no_violation:
  "\<exists>s. run init (js_split bodyText) = Inr s \<and>
       convertToPatch bodyText =
         Inr (patchState s = PatchStateEnd \<and> \<not> violated init (js_split bodyText), patchBody s) \<and>
       (patchState s = PatchStateEnd \<longleftrightarrow>
          (\<exists>pre post s0. js_split bodyText = pre @ ustr ''-- '' # post \<and> run init pre = Inr s0 \<and>
             patchState s0 = PatchStateHunkEnd))"
proof -
  from run_total [OF path_known_init] obtain s where s: "run init (js_split bodyText) = Inr s"
    by blast
  from run_success [OF s] have "success s = (\<not> violated init (js_split bodyText))"
    by (simp add: init_def)
  with s have conv: "convertToPatch bodyText =
         Inr (patchState s = PatchStateEnd \<and> \<not> violated init (js_split bodyText), patchBody s)"
    by (simp add: convertToPatch_def finish_def)
  have "\<exists>pre post s0. js_split bodyText = pre @ ustr ''-- '' # post \<and> run init pre = Inr s0 \<and>
             patchState s0 = PatchStateHunkEnd" if "patchState s = PatchStateEnd"
    using run_to_End [OF s that] by (simp add: init_def)
  moreover have "patchState s = PatchStateEnd"
    if "js_split bodyText = pre @ ustr ''-- '' # post" "run init pre = Inr s0"
      "patchState s0 = PatchStateHunkEnd" for pre post s0
  proof -
    from step_signature [OF that(3)] obtain s1 where
      s1: "step s0 (ustr ''-- '') = Inr s1" "patchState s1 = PatchStateEnd" by blast
    from run_End [OF s1(2), of post] obtain s2 where
      s2: "run s1 post = Inr s2" "patchState s2 = PatchStateEnd" by blast
    from that(1,2) s1(1) s2(1) have "run init (js_split bodyText) = Inr s2"
      by (simp add: run_append)
    with s s2(2) show ?thesis by simp
  qed
  ultimately show ?thesis using s conv by blast
qed

text \<open>The theorem at a complete one-hunk patch, which succeeds.\<close>

theorem success_iff_End_and_no_violation_witness:
  "\<exists>s. run init (js_split (ustr ''diff --git a/f b/f'' @ [LF] @ ustr ''@@ -1 +1 @@'' @ [LF] @
           ustr '' a'' @ [LF] @ ustr ''-- '')) = Inr s \<and>
       patchState s = PatchStateEnd \<and>
       \<not> violated init (js_split (ustr ''diff --git a/f b/f'' @ [LF] @ ustr ''@@ -1 +1 @@'' @ [LF] @
           ustr '' a'' @ [LF] @ ustr ''-- '')) \<and>
       convertToPatch (ustr ''diff --git a/f b/f'' @ [LF] @ ustr ''@@ -1 +1 @@'' @ [LF] @
           ustr '' a'' @ [LF] @ ustr ''-- '') = Inr (True, patchBody s)"
proof -
  from success_iff_End_and_no_violation [of "ustr ''diff --git a/f b/f'' @ [LF] @
      ustr ''@@ -1 +1 @@'' @ [LF] @ ustr '' a'' @ [LF] @ ustr ''-- ''"]
  obtain s where
    s: "run init (js_split (ustr ''diff --git a/f b/f'' @ [LF] @ ustr ''@@ -1 +1 @@'' @ [LF] @
           ustr '' a'' @ [LF] @ ustr ''-- '')) = Inr s" and
    conv: "convertToPatch (ustr ''diff --git a/f b/f'' @ [LF] @ ustr ''@@ -1 +1 @@'' @ [LF] @
           ustr '' a'' @ [LF] @ ustr ''-- '') =
         Inr (patchState s = PatchStateEnd \<and>
              \<not> violated init (js_split (ustr ''diff --git a/f b/f'' @ [LF] @
                 ustr ''@@ -1 +1 @@'' @ [LF] @ ustr '' a'' @ [LF] @ ustr ''-- '')), patchBody s)"
    by blast
  from conv have ok: "patchState s = PatchStateEnd \<and>
      \<not> violated init (js_split (ustr ''diff --git a/f b/f'' @ [LF] @
         ustr ''@@ -1 +1 @@'' @ [LF] @ ustr '' a'' @ [LF] @ ustr ''-- ''))"
    unfolding example_patch by simp
  with conv have "convertToPatch (ustr ''diff --git a/f b/f'' @ [LF] @ ustr ''@@ -1 +1 @@'' @ [LF] @
           ustr '' a'' @ [LF] @ ustr ''-- '') = Inr (True, patchBody s)"
    by simp
  with s ok show ?thesis by blast
qed

text \<open>
  C2, as amended. If a line matches the file header expression with two different
  paths and is met in state Start or HunkEnd (the two states in which the loop looks for
  a file header), then \<^verbatim>\<open>convertToPatch\<close> returns success = false, whatever the other
  lines are.
\<close>

theorem path_mismatch_fails:
  assumes "js_split bodyText = pre @ line # post"
    and "run init pre = Inr s"
    and "patchState s = PatchStateStart \<or> patchState s = PatchStateHunkEnd"
    and "rx_match regexPatchFileHeader line = Some m"
    and "m 1 = Some x" and "m 2 = Some y" and "x \<noteq> y"
  shows "\<exists>text. convertToPatch bodyText = Inr (False, text)"
proof -
  from assms(3,4) have "branch_of (patchState s) line = FileHeaderLine m"
    by (auto simp: branch_of_def)
  with assms(5-7) have "violation s line"
    by (simp add: violation_def)
  then have "violated s (line # post)" by simp
  with violated_append [OF assms(2), of "line # post"] assms(1)
  have v: "violated init (js_split bodyText)" by simp
  from success_violated [of bodyText] obtain s' where
    "run init (js_split bodyText) = Inr s'" "success s' = (\<not> violated init (js_split bodyText))"
    by blast
  with v show ?thesis
    by (simp add: convertToPatch_def finish_def)
qed

text \<open>The theorem at a body that is one mismatched header, met in state Start.\<close>

theorem path_mismatch_fails_witness:
  "js_split (ustr ''diff --git a/x b/y'') = [] @ ustr ''diff --git a/x b/y'' # [] \<and>
   run init [] = Inr init \<and> patchState init = PatchStateStart \<and>
   (\<exists>m. rx_match regexPatchFileHeader (ustr ''diff --git a/x b/y'') = Some m \<and>
        m 1 = Some (ustr ''/x'') \<and> m 2 = Some (ustr ''/y'')) \<and>
   ustr ''/x'' \<noteq> ustr ''/y'' \<and>
   (\<exists>text. convertToPatch (ustr ''diff --git a/x b/y'') = Inr (False, text))"
proof -
  have split: "js_split (ustr ''diff --git a/x b/y'') = [] @ ustr ''diff --git a/x b/y'' # []"
    by code_simp
  have start: "patchState init = PatchStateStart \<or> patchState init = PatchStateHunkEnd"
    by (simp add: init_def)
  have ne: "ustr ''/x'' \<noteq> ustr ''/y''"
    by (simp add: ustr_def)
  from example_mismatch obtain m where
    m: "rx_match regexPatchFileHeader (ustr ''diff --git a/x b/y'') = Some m"
      "m 1 = Some (ustr ''/x'')" "m 2 = Some (ustr ''/y'')"
    by (auto split: option.splits)
  have r: "run init [] = Inr init" by simp
  from path_mismatch_fails [OF split r start m ne] split r m ne
  show ?thesis by (auto simp: init_def)
qed

text \<open>
  C2 as stated fails. A file header is only looked for in the states Start and HunkEnd.
  Here the mismatched header follows another file header, in state FileHeader: it is
  copied to the output like any other line, and the body succeeds.
\<close>

theorem path_mismatch_after_file_header:
  "ustr ''diff --git a/x b/y'' \<in> set (js_split (ustr ''diff --git a/f b/f'' @ [LF] @
      ustr ''diff --git a/x b/y'' @ [LF] @ ustr ''@@ -1 +1 @@'' @ [LF] @ ustr '' a'' @ [LF] @
      ustr ''-- '')) \<and>
   (case rx_match regexPatchFileHeader (ustr ''diff --git a/x b/y'') of
      None \<Rightarrow> False
    | Some m \<Rightarrow> m 1 = Some (ustr ''/x'') \<and> m 2 = Some (ustr ''/y'')) \<and>
   convertToPatch (ustr ''diff --git a/f b/f'' @ [LF] @ ustr ''diff --git a/x b/y'' @ [LF] @
      ustr ''@@ -1 +1 @@'' @ [LF] @ ustr '' a'' @ [LF] @ ustr ''-- '') =
   Inr (True, ustr ''diff --git a/f b/f'' @ [LF] @ ustr ''diff --git a/x b/y'' @ [LF] @
      ustr ''@@ -1 +1 @@'' @ [LF] @ ustr '' a'' @ [CR, LF] @ ustr ''-- '' @ [LF])"
  by code_simp

text \<open>
  C5, as amended. For every input body and every line of it, the line adds to patchText
  either nothing (an empty line in an ascii hunk) or its text, non-breaking spaces
  replaced, and a terminator. The terminator is LF by default; it is CRLF exactly for
  the lines handled as content of an ascii hunk whose file path does not end in
  \<^verbatim>\<open>.sh\<close>. File headers, hunk headers, binary hunk lines, the signature line and all
  text outside hunks end in LF.
\<close>

theorem line_terminators:
  assumes "js_split bodyText = pre @ line # post"
  shows "\<exists>s s' ok rest. run init pre = Inr s \<and> step s line = Inr s' \<and>
           convertToPatch bodyText = Inr (ok, patchBody s' @ rest) \<and>
           patchBody s' = patchBody s @
             (if (patchState s' = PatchStateHunk \<or> patchState s' = PatchStateHunkEnd) \<and>
                 ascii s' \<and> line = []
              then []
              else replaceAll_nbsp line @
                (if branch_of (patchState s) line = HunkLine \<and> ascii s \<and>
                    (\<exists>fp. filePath s = Some fp \<and> \<not> endsWith fp (ustr ''.sh''))
                 then [CR, LF] else [LF]))"
proof -
  from scan_line [OF assms] obtain s s' ok rest where
    *: "run init pre = Inr s" "step s line = Inr s'"
       "convertToPatch bodyText = Inr (ok, patchBody s' @ rest)"
    by blast
  from step_chunk [OF *(2)] * show ?thesis by blast
qed

text \<open>
  The theorem at two lines of a one-hunk patch with an empty line in the hunk: the added
  line ends in CRLF, the signature line in LF.
\<close>

theorem line_terminators_witness:
  "(\<exists>s s' ok rest.
      run init [ustr ''diff --git a/f b/f'', ustr ''@@ -1 +1 @@'', ustr ''-a'', []] = Inr s \<and>
      step s (ustr ''+b'') = Inr s' \<and>
      convertToPatch (ustr ''diff --git a/f b/f'' @ [LF] @ ustr ''@@ -1 +1 @@'' @ [LF] @
        ustr ''-a'' @ [LF] @ [LF] @ ustr ''+b'' @ [LF] @ ustr ''-- '') = Inr (ok, patchBody s' @ rest) \<and>
      patchBody s' = patchBody s @ ustr ''+b'' @ [CR, LF]) \<and>
   (\<exists>s s' ok rest.
      run init [ustr ''diff --git a/f b/f'', ustr ''@@ -1 +1 @@'', ustr ''-a'', [], ustr ''+b''] = Inr s \<and>
      step s (ustr ''-- '') = Inr s' \<and>
      convertToPatch (ustr ''diff --git a/f b/f'' @ [LF] @ ustr ''@@ -1 +1 @@'' @ [LF] @
        ustr ''-a'' @ [LF] @ [LF] @ ustr ''+b'' @ [LF] @ ustr ''-- '') = Inr (ok, patchBody s' @ rest) \<and>
      patchBody s' = patchBody s @ ustr ''-- '' @ [LF])"
proof -
  have r1: "replaceAll_nbsp (ustr ''+b'') = ustr ''+b''" and r2: "replaceAll_nbsp (ustr ''-- '') = ustr ''-- ''"
    and n1: "ustr ''+b'' \<noteq> []" and n2: "ustr ''-- '' \<noteq> []"
    by code_simp+
  from line_terminators [OF example_hunk_split(2)] obtain s s' ok rest where
    a: "run init [ustr ''diff --git a/f b/f'', ustr ''@@ -1 +1 @@'', ustr ''-a'', []] = Inr s"
       "step s (ustr ''+b'') = Inr s'"
       "convertToPatch (ustr ''diff --git a/f b/f'' @ [LF] @ ustr ''@@ -1 +1 @@'' @ [LF] @
          ustr ''-a'' @ [LF] @ [LF] @ ustr ''+b'' @ [LF] @ ustr ''-- '') = Inr (ok, patchBody s' @ rest)"
       "patchBody s' = patchBody s @
             (if (patchState s' = PatchStateHunk \<or> patchState s' = PatchStateHunkEnd) \<and>
                 ascii s' \<and> ustr ''+b'' = []
              then []
              else replaceAll_nbsp (ustr ''+b'') @
                (if branch_of (patchState s) (ustr ''+b'') = HunkLine \<and> ascii s \<and>
                    (\<exists>fp. filePath s = Some fp \<and> \<not> endsWith fp (ustr ''.sh''))
                 then [CR, LF] else [LF]))"
    by blast
  from a(1) have "patchState s = PatchStateHunk" "ascii s" "filePath s = Some (ustr ''/f'')"
    unfolding example_hunk_run by auto
  with a(4) have "patchBody s' = patchBody s @ ustr ''+b'' @ [CR, LF]"
    by (simp add: r1 n1 example_hunk_branch example_hunk_suffix)
  with a have first: "\<exists>s s' ok rest.
      run init [ustr ''diff --git a/f b/f'', ustr ''@@ -1 +1 @@'', ustr ''-a'', []] = Inr s \<and>
      step s (ustr ''+b'') = Inr s' \<and>
      convertToPatch (ustr ''diff --git a/f b/f'' @ [LF] @ ustr ''@@ -1 +1 @@'' @ [LF] @
        ustr ''-a'' @ [LF] @ [LF] @ ustr ''+b'' @ [LF] @ ustr ''-- '') = Inr (ok, patchBody s' @ rest) \<and>
      patchBody s' = patchBody s @ ustr ''+b'' @ [CR, LF]"
    by blast
  from line_terminators [OF example_hunk_split(3)] obtain t t' ok' rest' where
    b: "run init [ustr ''diff --git a/f b/f'', ustr ''@@ -1 +1 @@'', ustr ''-a'', [], ustr ''+b''] = Inr t"
       "step t (ustr ''-- '') = Inr t'"
       "convertToPatch (ustr ''diff --git a/f b/f'' @ [LF] @ ustr ''@@ -1 +1 @@'' @ [LF] @
          ustr ''-a'' @ [LF] @ [LF] @ ustr ''+b'' @ [LF] @ ustr ''-- '') = Inr (ok', patchBody t' @ rest')"
       "patchBody t' = patchBody t @
             (if (patchState t' = PatchStateHunk \<or> patchState t' = PatchStateHunkEnd) \<and>
                 ascii t' \<and> ustr ''-- '' = []
              then []
              else replaceAll_nbsp (ustr ''-- '') @
                (if branch_of (patchState t) (ustr ''-- '') = HunkLine \<and> ascii t \<and>
                    (\<exists>fp. filePath t = Some fp \<and> \<not> endsWith fp (ustr ''.sh''))
                 then [CR, LF] else [LF]))"
    by blast
  from b(1) have "patchState t = PatchStateHunkEnd"
    unfolding example_hunk_run by auto
  with b(4) have "patchBody t' = patchBody t @ ustr ''-- '' @ [LF]"
    by (simp add: r2 n2 example_hunk_branch)
  with b have "\<exists>s s' ok rest.
      run init [ustr ''diff --git a/f b/f'', ustr ''@@ -1 +1 @@'', ustr ''-a'', [], ustr ''+b''] = Inr s \<and>
      step s (ustr ''-- '') = Inr s' \<and>
      convertToPatch (ustr ''diff --git a/f b/f'' @ [LF] @ ustr ''@@ -1 +1 @@'' @ [LF] @
        ustr ''-a'' @ [LF] @ [LF] @ ustr ''+b'' @ [LF] @ ustr ''-- '') = Inr (ok, patchBody s' @ rest) \<and>
      patchBody s' = patchBody s @ ustr ''-- '' @ [LF]"
    by blast
  with first show ?thesis by blast
qed

text \<open>
  C5 as stated fails: CRLF is not the default. \<open>unixEol\<close> starts as \<^verbatim>\<open>true\<close> in every
  iteration and only the ascii hunk branch can clear it. A body that is the one line
  \<^verbatim>\<open>abc\<close>, which is no hunk content, comes back ended by LF alone.
\<close>

theorem default_terminator_is_LF:
  "js_split (ustr ''abc'') = [ustr ''abc''] \<and>
   branch_of (patchState init) (ustr ''abc'') = OtherLine \<and>
   convertToPatch (ustr ''abc'') = Inr (False, ustr ''abc'' @ [LF]) \<and>
   convertToPatch (ustr ''abc'') \<noteq> Inr (False, ustr ''abc'' @ [CR, LF])"
  using example_abc example_abc_branch by (simp add: init_def)

text \<open>
  C8. For every input body and every empty line of it: if the line leaves the scan in an
  ascii hunk (state Hunk or HunkEnd with the hunk marked ascii, which the loop tests
  after the line's transition), it adds nothing to patchText and changes no counter;
  otherwise it is kept, as an LF. In terms of the state in which the line is met: it is
  dropped in an ascii hunk (states HunkHeader, Hunk and HunkEnd with the hunk marked
  ascii) and kept everywhere else.
\<close>

theorem empty_line:
  assumes "js_split bodyText = pre @ [] # post"
  shows "\<exists>s s' ok rest. run init pre = Inr s \<and> step s [] = Inr s' \<and>
           convertToPatch bodyText = Inr (ok, patchBody s' @ rest) \<and>
           (if (patchState s' = PatchStateHunk \<or> patchState s' = PatchStateHunkEnd) \<and> ascii s'
            then patchBody s' = patchBody s \<and> addedLines s' = addedLines s \<and>
                 deletedLines s' = deletedLines s
            else patchBody s' = patchBody s @ [LF]) \<and>
           patchBody s' =
             (if ascii s \<and> (patchState s = PatchStateHunkHeader \<or> patchState s = PatchStateHunk \<or>
                            patchState s = PatchStateHunkEnd)
              then patchBody s else patchBody s @ [LF])"
proof -
  from scan_line [OF assms] obtain s s' ok rest where
    *: "run init pre = Inr s" "step s [] = Inr s'"
       "convertToPatch bodyText = Inr (ok, patchBody s' @ rest)"
    by blast
  from step_empty [OF *(2)] * show ?thesis by blast
qed

text \<open>
  The theorem at an empty line inside an ascii hunk, which is dropped, and at the empty
  body, whose one empty line is kept.
\<close>

theorem empty_line_witness:
  "(\<exists>s s' ok rest.
      run init [ustr ''diff --git a/f b/f'', ustr ''@@ -1 +1 @@'', ustr ''-a''] = Inr s \<and>
      step s [] = Inr s' \<and>
      convertToPatch (ustr ''diff --git a/f b/f'' @ [LF] @ ustr ''@@ -1 +1 @@'' @ [LF] @
        ustr ''-a'' @ [LF] @ [LF] @ ustr ''+b'' @ [LF] @ ustr ''-- '') = Inr (ok, patchBody s' @ rest) \<and>
      patchState s = PatchStateHunk \<and> ascii s \<and> patchState s' = PatchStateHunk \<and> ascii s' \<and>
      patchBody s' = patchBody s \<and> addedLines s' = addedLines s \<and>
      deletedLines s' = deletedLines s) \<and>
   (\<exists>s s' ok rest.
      run init [] = Inr s \<and> step s [] = Inr s' \<and>
      convertToPatch [] = Inr (ok, patchBody s' @ rest) \<and>
      patchState s' = PatchStateStart \<and> patchBody s' = patchBody s @ [LF])"
proof -
  from empty_line [OF example_hunk_split(1)] obtain s s' ok rest where
    a: "run init [ustr ''diff --git a/f b/f'', ustr ''@@ -1 +1 @@'', ustr ''-a''] = Inr s"
       "step s [] = Inr s'"
       "convertToPatch (ustr ''diff --git a/f b/f'' @ [LF] @ ustr ''@@ -1 +1 @@'' @ [LF] @
          ustr ''-a'' @ [LF] @ [LF] @ ustr ''+b'' @ [LF] @ ustr ''-- '') = Inr (ok, patchBody s' @ rest)"
       "if (patchState s' = PatchStateHunk \<or> patchState s' = PatchStateHunkEnd) \<and> ascii s'
            then patchBody s' = patchBody s \<and> addedLines s' = addedLines s \<and>
                 deletedLines s' = deletedLines s
            else patchBody s' = patchBody s @ [LF]"
    by blast
  from a(1) have s: "patchState s = PatchStateHunk" "ascii s"
    unfolding example_hunk_run by auto
  from a(1,2) have "run init [ustr ''diff --git a/f b/f'', ustr ''@@ -1 +1 @@'', ustr ''-a'', []] = Inr s'"
    using run_append [of init "[ustr ''diff --git a/f b/f'', ustr ''@@ -1 +1 @@'', ustr ''-a'']" "[[]]"]
    by simp
  then have s': "patchState s' = PatchStateHunk" "ascii s'"
    unfolding example_hunk_run by auto
  with a(4) have "patchBody s' = patchBody s \<and> addedLines s' = addedLines s \<and>
                 deletedLines s' = deletedLines s" by simp
  with a(1-3) s s' have first: "\<exists>s s' ok rest.
      run init [ustr ''diff --git a/f b/f'', ustr ''@@ -1 +1 @@'', ustr ''-a''] = Inr s \<and>
      step s [] = Inr s' \<and>
      convertToPatch (ustr ''diff --git a/f b/f'' @ [LF] @ ustr ''@@ -1 +1 @@'' @ [LF] @
        ustr ''-a'' @ [LF] @ [LF] @ ustr ''+b'' @ [LF] @ ustr ''-- '') = Inr (ok, patchBody s' @ rest) \<and>
      patchState s = PatchStateHunk \<and> ascii s \<and> patchState s' = PatchStateHunk \<and> ascii s' \<and>
      patchBody s' = patchBody s \<and> addedLines s' = addedLines s \<and>
      deletedLines s' = deletedLines s"
    by blast
  from empty_line [OF example_hunk_split(4)] obtain t t' ok' rest' where
    b: "run init [] = Inr t" "step t [] = Inr t'"
       "convertToPatch [] = Inr (ok', patchBody t' @ rest')"
       "if (patchState t' = PatchStateHunk \<or> patchState t' = PatchStateHunkEnd) \<and> ascii t'
            then patchBody t' = patchBody t \<and> addedLines t' = addedLines t \<and>
                 deletedLines t' = deletedLines t
            else patchBody t' = patchBody t @ [LF]"
    by blast
  from b(1) have "t = init" by simp
  with b(2) have "patchState t' = PatchStateStart"
    by (auto simp: step_def branch_of_empty init_def)
  with b(4) have "patchState t' = PatchStateStart \<and> patchBody t' = patchBody t @ [LF]" by simp
  with b(1-3) have "\<exists>s s' ok rest.
      run init [] = Inr s \<and> step s [] = Inr s' \<and>
      convertToPatch [] = Inr (ok, patchBody s' @ rest) \<and>
      patchState s' = PatchStateStart \<and> patchBody s' = patchBody s @ [LF]"
    by blast
  with first show ?thesis by blast
qed

text \<open>
  C3, as amended. Take any point of a scan at which a line is taken as an ascii hunk
  header, with captured counts D (deleted) and A (added), and let content lines follow
  (each starts with a space, \<^verbatim>\<open>+\<close> or \<^verbatim>\<open>-\<close>; one that starts with a space counts as
  deleted and as added). If there is at least one line, and exactly D of them count as
  deleted and A as added, the scan is in state HunkEnd after them and success is what it
  was before the header. If the lines are fed while the hunk is open (state HunkHeader
  or Hunk before each of them) and more than D count as deleted or more than A as added,
  success is false after them.
\<close>

theorem ascii_hunk_counts:
  assumes "run init pre = Inr s0"
    and "branch_of (patchState s0) header = AsciiHunkHeaderLine m"
    and "m 1 = Some d" and "m 2 = Some a"
    and "\<forall>l\<in>set ls. is_content l"
  shows "\<exists>s. step s0 header = Inr s \<and> patchState s = PatchStateHunkHeader \<and> ascii s \<and>
      deletedLines s = parseInt d \<and> addedLines s = parseInt a \<and> success s = success s0 \<and>
      (ls \<noteq> [] \<and> int (del_count ls) = parseInt d \<and> int (add_count ls) = parseInt a \<longrightarrow>
         (\<exists>s'. run s ls = Inr s' \<and> patchState s' = PatchStateHunkEnd \<and> success s' = success s0)) \<and>
      ((\<forall>k<length ls. \<exists>sk. run s (take k ls) = Inr sk \<and>
           (patchState sk = PatchStateHunkHeader \<or> patchState sk = PatchStateHunk)) \<and>
       ls \<noteq> [] \<and> (parseInt d < int (del_count ls) \<or> parseInt a < int (add_count ls)) \<longrightarrow>
         (\<exists>s'. run s ls = Inr s' \<and> \<not> success s'))"
proof -
  from run_path_known [OF assms(1) path_known_init] have pk: "path_known s0" .
  from branch_of_AsciiHunkHeaderLine [OF assms(2)] pk obtain fp where fp: "filePath s0 = Some fp"
    by (auto simp: path_known_def)
  define s where "s = emit (s0\<lparr>patchState := PatchStateHunkHeader, ascii := True,
      deletedLines := parseInt d, addedLines := parseInt a\<rparr>) header True"
  from assms(2-4) have step: "step s0 header = Inr s"
    by (simp add: step_def s_def)
  have s: "patchState s = PatchStateHunkHeader" "ascii s" "deletedLines s = parseInt d"
    "addedLines s = parseInt a" "success s = success s0" "filePath s = Some fp"
    by (simp_all add: s_def fp)
  have one: "\<exists>s'. run s ls = Inr s' \<and> patchState s' = PatchStateHunkEnd \<and> success s' = success s0"
    if "ls \<noteq> [] \<and> int (del_count ls) = parseInt d \<and> int (add_count ls) = parseInt a"
    using hunk_closes [OF assms(5), of s fp] that s by simp
  have two: "\<exists>s'. run s ls = Inr s' \<and> \<not> success s'"
    if h: "(\<forall>k<length ls. \<exists>sk. run s (take k ls) = Inr sk \<and>
           (patchState sk = PatchStateHunkHeader \<or> patchState sk = PatchStateHunk)) \<and>
       ls \<noteq> [] \<and> (parseInt d < int (del_count ls) \<or> parseInt a < int (add_count ls))"
  proof -
    from h have open_: "\<forall>k<length ls. \<exists>sk. run s (take k ls) = Inr sk \<and>
           (patchState sk = PatchStateHunkHeader \<or> patchState sk = PatchStateHunk)" by blast
    from hunk_counts [OF assms(5) s(2,6) open_] obtain s' where
      s': "run s ls = Inr s'" "deletedLines s' = deletedLines s - int (del_count ls)"
        "addedLines s' = addedLines s - int (add_count ls)"
        "ls \<noteq> [] \<longrightarrow> success s' \<longrightarrow> 0 \<le> deletedLines s' \<and> 0 \<le> addedLines s'"
      by blast
    from h s(3,4) s'(2,3) have neg: "deletedLines s' < 0 \<or> addedLines s' < 0" by auto
    with h s'(1,4) show ?thesis by auto
  qed
  from step s one two show ?thesis by blast
qed

text \<open>
  The theorem at the header \<^verbatim>\<open>@@ -1 +1,2 @@\<close>: one deleted and two added lines close the
  hunk; two deleted lines, the second fed while the hunk is open, make the scan fail.
\<close>

theorem ascii_hunk_counts_witness:
  "\<exists>s0 s. run init [ustr ''diff --git a/f b/f''] = Inr s0 \<and>
     step s0 (ustr ''@@ -1 +1,2 @@'') = Inr s \<and> deletedLines s = 1 \<and> addedLines s = 2 \<and>
     (\<exists>s'. run s [ustr ''-a'', ustr ''+b'', ustr ''+c''] = Inr s' \<and>
           patchState s' = PatchStateHunkEnd \<and> success s' = success s0) \<and>
     (\<exists>s'. run s [ustr ''-a'', ustr ''-b''] = Inr s' \<and> \<not> success s')"
proof -
  define s0 where "s0 = \<lparr>patchBody = ustr ''diff --git a/f b/f'' @ [LF], addedLines = 0,
        deletedLines = 0, ascii = False, patchState = PatchStateFileHeader, success = True,
        filePath = Some (ustr ''/f'')\<rparr>"
  have r0: "run init [ustr ''diff --git a/f b/f''] = Inr s0"
    by (simp only: example_header_run s0_def)
  from example_header_match obtain m where
    m: "branch_of (patchState s0) (ustr ''@@ -1 +1,2 @@'') = AsciiHunkHeaderLine m"
      "m 1 = Some (ustr ''1'')" "m 2 = Some (ustr ''2'')"
    by (auto simp: s0_def split: branch.splits)
  from ascii_hunk_counts [OF r0 m example_header_lines(1)] obtain s where
    s: "step s0 (ustr ''@@ -1 +1,2 @@'') = Inr s" "patchState s = PatchStateHunkHeader"
      "deletedLines s = parseInt (ustr ''1'')" "addedLines s = parseInt (ustr ''2'')" and
    closes: "[ustr ''-a'', ustr ''+b'', ustr ''+c''] \<noteq> [] \<and>
      int (del_count [ustr ''-a'', ustr ''+b'', ustr ''+c'']) = parseInt (ustr ''1'') \<and>
      int (add_count [ustr ''-a'', ustr ''+b'', ustr ''+c'']) = parseInt (ustr ''2'') \<longrightarrow>
      (\<exists>s'. run s [ustr ''-a'', ustr ''+b'', ustr ''+c''] = Inr s' \<and>
            patchState s' = PatchStateHunkEnd \<and> success s' = success s0)"
    by blast
  from closes example_header_lines(2,3) have one:
    "\<exists>s'. run s [ustr ''-a'', ustr ''+b'', ustr ''+c''] = Inr s' \<and>
          patchState s' = PatchStateHunkEnd \<and> success s' = success s0"
    by simp
  from ascii_hunk_counts [OF r0 m example_header_lines(4)] s(1) have over:
    "(\<forall>k<length [ustr ''-a'', ustr ''-b''].
        \<exists>sk. run s (take k [ustr ''-a'', ustr ''-b'']) = Inr sk \<and>
           (patchState sk = PatchStateHunkHeader \<or> patchState sk = PatchStateHunk)) \<and>
     [ustr ''-a'', ustr ''-b''] \<noteq> [] \<and>
     (parseInt (ustr ''1'') < int (del_count [ustr ''-a'', ustr ''-b'']) \<or>
      parseInt (ustr ''2'') < int (add_count [ustr ''-a'', ustr ''-b''])) \<longrightarrow>
     (\<exists>s'. run s [ustr ''-a'', ustr ''-b''] = Inr s' \<and> \<not> success s')"
    by auto
  have "run init ([ustr ''diff --git a/f b/f''] @ [ustr ''@@ -1 +1,2 @@'', ustr ''-a'']) =
      run s0 [ustr ''@@ -1 +1,2 @@'', ustr ''-a'']"
    by (subst run_append) (simp only: r0 sum.case)
  also have "\<dots> = run s [ustr ''-a'']"
    by (subst run.simps) (simp only: s(1) sum.case)
  finally have "run s [ustr ''-a''] =
      Inr \<lparr>patchBody = ustr ''diff --git a/f b/f'' @ [LF] @ ustr ''@@ -1 +1,2 @@'' @ [LF] @
          ustr ''-a'' @ [CR, LF],
        addedLines = 2, deletedLines = 0, ascii = True, patchState = PatchStateHunk,
        success = True, filePath = Some (ustr ''/f'')\<rparr>"
    using example_header_run(2) by simp
  then have "\<exists>sk. run s [ustr ''-a''] = Inr sk \<and> patchState sk = PatchStateHunk"
    by simp
  with s(2) have "\<forall>k<length [ustr ''-a'', ustr ''-b''].
        \<exists>sk. run s (take k [ustr ''-a'', ustr ''-b'']) = Inr sk \<and>
           (patchState sk = PatchStateHunkHeader \<or> patchState sk = PatchStateHunk)"
    by (auto simp: less_Suc_eq numeral_2_eq_2)
  with over example_header_lines(5) have two:
    "\<exists>s'. run s [ustr ''-a'', ustr ''-b''] = Inr s' \<and> \<not> success s'"
    by simp
  from s(3,4) have "deletedLines s = 1" "addedLines s = 2"
    by (simp_all add: example_header_lines)
  with r0 s(1) one two show ?thesis by blast
qed

text \<open>
  C3 as stated fails for the counts (0, 0). After the header \<^verbatim>\<open>@@ -1,0 +1,0 @@\<close> both
  counters are zero and the state is HunkHeader; the counters are compared with zero only
  when a hunk line is handled, so feeding exactly zero lines leaves the state HunkHeader,
  not HunkEnd. The signature line that follows is then taken as a deleted line and the
  body fails.
\<close>

theorem empty_hunk_stays_open:
  "run init [ustr ''diff --git a/f b/f'', ustr ''@@ -1,0 +1,0 @@''] =
     Inr \<lparr>patchBody = ustr ''diff --git a/f b/f'' @ [LF] @ ustr ''@@ -1,0 +1,0 @@'' @ [LF],
          addedLines = 0, deletedLines = 0, ascii = True, patchState = PatchStateHunkHeader,
          success = True, filePath = Some (ustr ''/f'')\<rparr> \<and>
   del_count [] = 0 \<and> add_count [] = 0 \<and>
   convertToPatch (ustr ''diff --git a/f b/f'' @ [LF] @ ustr ''@@ -1,0 +1,0 @@'' @ [LF] @
     ustr ''-- '') =
     Inr (False, ustr ''diff --git a/f b/f'' @ [LF] @ ustr ''@@ -1,0 +1,0 @@'' @ [LF] @
       ustr ''-- '' @ [CR, LF])"
  by code_simp

text \<open>
  C4, at a hunk header whose delete count is omitted. \<^verbatim>\<open>@@ -5 +5,2 @@\<close> announces one
  deleted line (the omitted count is 1; 5 is the start line) and two added lines. The
  expression of the source makes the start line and its comma optional and captures the
  number that remains, so \<open>deletedLines\<close> is set to 5, not to 1. The hunk of one deleted
  and two added lines then never closes, and this well-formed patch is returned with
  success = false.
\<close>

theorem hunk_header_count_omitted:
  "run init [ustr ''diff --git a/f b/f'', ustr ''@@ -5 +5,2 @@''] =
     Inr \<lparr>patchBody = ustr ''diff --git a/f b/f'' @ [LF] @ ustr ''@@ -5 +5,2 @@'' @ [LF],
          addedLines = 2, deletedLines = 5, ascii = True, patchState = PatchStateHunkHeader,
          success = True, filePath = Some (ustr ''/f'')\<rparr> \<and>
   convertToPatch (ustr ''diff --git a/f b/f'' @ [LF] @ ustr ''@@ -5 +5,2 @@'' @ [LF] @
     ustr ''-a'' @ [LF] @ ustr ''+b'' @ [LF] @ ustr ''+c'' @ [LF] @ ustr ''-- '') =
     Inr (False, ustr ''diff --git a/f b/f'' @ [LF] @ ustr ''@@ -5 +5,2 @@'' @ [LF] @
       ustr ''-a'' @ [CR, LF] @ ustr ''+b'' @ [CR, LF] @ ustr ''+c'' @ [CR, LF] @
       ustr ''-- '' @ [CR, LF])"
  by code_simp

end
